theory Spec2Isabelle
  imports Complex_Main
begin

section \<open>The computation graph of \<^verbatim>\<open>engine.py\<close>\<close>

text \<open>
  \<^verbatim>\<open>engine.py\<close> has one class, \<^verbatim>\<open>Variable\<close>. Its objects are mutable and shared (one
  object can be the operand of many operations), and the stored \<^verbatim>\<open>_backward\<close> closures
  write into the objects they captured, so the objects live in an explicit store: the list of
  all \<^verbatim>\<open>Variable\<close>s ever constructed, in construction order. A reference to an object is
  its index in that list, and object identity is equality of indices. Objects are never
  freed.

  Numbers are the real numbers: the rounding and the overflow of Python's floats are not
  modelled, and on Python's integers \<open>+\<close>, \<open>-\<close>, \<open>*\<close> and the comparisons agree with
  the reals. The methods \<^verbatim>\<open>__str__\<close> and \<^verbatim>\<open>__repr__\<close> only print and are left out.
\<close>

subsection \<open>Errors and powers\<close>

text \<open>
  The only operator of the file that can fail is \<^verbatim>\<open>**\<close>. \<open>py_pow x y\<close> is \<^verbatim>\<open>x ** y\<close> on
  Python's own numbers (\<^verbatim>\<open>int\<close> and \<^verbatim>\<open>float\<close>): the real number it returns, or
  \<open>ZeroDivisionError\<close>, the exception it raises for a zero base and a negative exponent.

  Two outcomes of the program have no counterpart in a store of real numbers, and the model
  does not follow the program there:
  \<^item> for a negative base and an exponent that is not an integer, Python raises nothing:
    it returns a complex number, constructs the object with it and goes on. \<open>py_pow\<close>
    gives \<open>ComplexResult\<close>, which is not an exception of the program but the point where
    the model stops;
  \<^item> a zero base that is a \<^verbatim>\<open>numpy.float64\<close> (\<^verbatim>\<open>np.tanh\<close> returns one) with a negative
    exponent gives \<^verbatim>\<open>inf\<close> where Python's own zero raises; the store does not record
    which kind of number a \<open>data\<close> is, and \<open>py_pow\<close> raises as Python's own numbers do.

  What is proved about \<^verbatim>\<open>**\<close> below is stated where neither occurs: as an equation where
  the power is a real number (\<open>real_power_defined\<close>), and at \<^verbatim>\<open>Variable(0)\<close>, a zero of
  Python's own, for the exception.
\<close>

datatype error = ZeroDivisionError | ComplexResult

definition py_pow :: "real \<Rightarrow> real \<Rightarrow> error + real" where
  "py_pow x y =
     (if y = 0 then Inr 1
      else if x = 0 then (if y < 0 then Inl ZeroDivisionError else Inr 0)
      else if 0 < x then Inr (x powr y)
      else if y \<in> \<int> then Inr (power_int x \<lfloor>y\<rfloor>)
      else Inl ComplexResult)"



subsection \<open>Objects and the store\<close>

text \<open>
  The closure stored in \<^verbatim>\<open>_backward\<close>, by the function that built it and the variables it
  captured: \<open>NoOp\<close> is \<^verbatim>\<open>lambda: None\<close> of \<^verbatim>\<open>__init__\<close>; \<open>AddBackward self other out\<close>,
  \<open>SubBackward self other out\<close> and \<open>MulBackward self other out\<close> are the \<^verbatim>\<open>_backward\<close>
  of \<^verbatim>\<open>__add__\<close>, \<^verbatim>\<open>__sub__\<close> and \<^verbatim>\<open>__mul__\<close>; \<open>PowBackward self out exponent\<close> is the one
  of \<^verbatim>\<open>__pow__\<close>; \<open>ReluBackward self out\<close> the one of \<^verbatim>\<open>relu\<close>.
\<close>

datatype closure =
    NoOp
  | AddBackward nat nat nat
  | SubBackward nat nat nat
  | MulBackward nat nat nat
  | PowBackward nat nat real
  | ReluBackward nat nat

text \<open>The fields of a \<^verbatim>\<open>Variable\<close>; \<open>prev\<close>, \<open>op\<close> and \<open>backward_closure\<close> are the
  attributes \<^verbatim>\<open>_prev\<close>, \<^verbatim>\<open>_op\<close> and \<^verbatim>\<open>_backward\<close>.\<close>

record variable =
  data :: real
  label :: string
  grad :: real
  prev :: "nat list"
  op :: string
  backward_closure :: closure

type_synonym store = "variable list"

text \<open>\<^verbatim>\<open>Variable(data, label, grad, _op, _prev)\<close>: the new object is appended to the store
  and its reference returned.\<close>

definition Variable :: "store \<Rightarrow> real \<Rightarrow> string \<Rightarrow> real \<Rightarrow> string \<Rightarrow> nat list \<Rightarrow> store \<times> nat" where
  "Variable s d l g o' p =
     (s @ [\<lparr>data = d, label = l, grad = g, prev = p, op = o', backward_closure = NoOp\<rparr>],
      length s)"

text \<open>\<^verbatim>\<open>x.grad += d\<close> and \<^verbatim>\<open>x.grad = d\<close> on the object at reference \<open>i\<close>.\<close>

definition iadd_grad :: "store \<Rightarrow> nat \<Rightarrow> real \<Rightarrow> store" where
  "iadd_grad s i d = s[i := (s ! i)\<lparr>grad := grad (s ! i) + d\<rparr>]"

definition set_grad :: "store \<Rightarrow> nat \<Rightarrow> real \<Rightarrow> store" where
  "set_grad s i d = s[i := (s ! i)\<lparr>grad := d\<rparr>]"

definition set_backward :: "store \<Rightarrow> nat \<Rightarrow> closure \<Rightarrow> store" where
  "set_backward s i c = s[i := (s ! i)\<lparr>backward_closure := c\<rparr>]"

subsection \<open>The operations\<close>

text \<open>
  The second operand of \<^verbatim>\<open>__add__\<close>, \<^verbatim>\<open>__sub__\<close> and \<^verbatim>\<open>__mul__\<close> is a \<^verbatim>\<open>Variable\<close> or a
  number. Their first line,
  \<^verbatim>\<open>other = other if isinstance(other, Variable) else Variable(other, f'{other}')\<close>,
  is \<open>lift\<close>. The text that the f-string gives for a number is the parameter \<open>fmt\<close>.
\<close>

datatype operand = Var nat | Num real

definition lift :: "(real \<Rightarrow> string) \<Rightarrow> store \<Rightarrow> operand \<Rightarrow> store \<times> nat" where
  "lift fmt s other =
     (case other of
        Var j \<Rightarrow> (s, j)
      | Num x \<Rightarrow> Variable s x (fmt x) 0 [] [])"

definition add :: "(real \<Rightarrow> string) \<Rightarrow> store \<Rightarrow> nat \<Rightarrow> operand \<Rightarrow> store \<times> nat" where
  "add fmt s self other0 =
     (let (s1, other) = lift fmt s other0;
          (s2, out) = Variable s1 (data (s1 ! self) + data (s1 ! other)) [] 0 ''+'' [self, other]
      in (set_backward s2 out (AddBackward self other out), out))"

definition sub :: "(real \<Rightarrow> string) \<Rightarrow> store \<Rightarrow> nat \<Rightarrow> operand \<Rightarrow> store \<times> nat" where
  "sub fmt s self other0 =
     (let (s1, other) = lift fmt s other0;
          (s2, out) = Variable s1 (data (s1 ! self) - data (s1 ! other)) (label (s1 ! self)) 0
                        ''-'' [self, other]
      in (set_backward s2 out (SubBackward self other out), out))"

definition mul :: "(real \<Rightarrow> string) \<Rightarrow> store \<Rightarrow> nat \<Rightarrow> operand \<Rightarrow> store \<times> nat" where
  "mul fmt s self other0 =
     (let (s1, other) = lift fmt s other0;
          (s2, out) = Variable s1 (data (s1 ! self) * data (s1 ! other)) (label (s1 ! self)) 0
                        ''*'' [self, other]
      in (set_backward s2 out (MulBackward self other out), out))"

text \<open>\<^verbatim>\<open>__pow__\<close>: when \<^verbatim>\<open>self.data ** exponent\<close> raises, no object is constructed. At
  \<open>ComplexResult\<close> the model stops in the same way, though the program goes on.\<close>

definition pow :: "store \<Rightarrow> nat \<Rightarrow> real \<Rightarrow> error + store \<times> nat" where
  "pow s self exponent =
     (case py_pow (data (s ! self)) exponent of
        Inl e \<Rightarrow> Inl e
      | Inr d \<Rightarrow>
          (let (s2, out) = Variable s d (label (s ! self)) 0 ''pow'' [self]
           in Inr (set_backward s2 out (PowBackward self out exponent), out)))"

definition relu :: "store \<Rightarrow> nat \<Rightarrow> store \<times> nat" where
  "relu s self =
     (let (s2, out) = Variable s (max 0 (data (s ! self))) (label (s ! self)) 0 ''relu'' [self]
      in (set_backward s2 out (ReluBackward self out), out))"

text \<open>\<^verbatim>\<open>tanh\<close> returns the constructed object as it is: \<^verbatim>\<open>_backward\<close> is never assigned.\<close>

definition tanh_op :: "store \<Rightarrow> nat \<Rightarrow> store \<times> nat" where
  "tanh_op s self = Variable s (tanh (data (s ! self))) (label (s ! self)) 0 ''tanh'' [self]"

definition zero_grad :: "store \<Rightarrow> nat \<Rightarrow> store" where
  "zero_grad s self = set_grad s self 0"

subsection \<open>Calling a stored closure\<close>

text \<open>
  The bodies of the five \<^verbatim>\<open>_backward\<close> functions. Each statement is an augmented
  assignment: its right-hand side is evaluated in the store the statement before it left.
  In \<^verbatim>\<open>__pow__\<close> the right-hand side can raise, and then nothing is written.
\<close>

fun run_closure :: "closure \<Rightarrow> store \<Rightarrow> error + store" where
  "run_closure NoOp s = Inr s"
| "run_closure (AddBackward self other out) s =
     (let s1 = iadd_grad s self (grad (s ! out));
          s2 = iadd_grad s1 other (grad (s1 ! out))
      in Inr s2)"
| "run_closure (SubBackward self other out) s =
     (let s1 = iadd_grad s self (grad (s ! out));
          s2 = iadd_grad s1 other (- 1 * grad (s1 ! out))
      in Inr s2)"
| "run_closure (MulBackward self other out) s =
     (let s1 = iadd_grad s self (grad (s ! out) * data (s ! other));
          s2 = iadd_grad s1 other (grad (s1 ! out) * data (s1 ! self))
      in Inr s2)"
| "run_closure (PowBackward self out exponent) s =
     (case py_pow (data (s ! self)) (exponent - 1) of
        Inl e \<Rightarrow> Inl e
      | Inr w \<Rightarrow> Inr (iadd_grad s self (grad (s ! out) * exponent * w)))"
| "run_closure (ReluBackward self out) s =
     (if data (s ! self) \<le> 0 then Inr (iadd_grad s self 0)
      else Inr (iadd_grad s self (grad (s ! out))))"

text \<open>\<^verbatim>\<open>v._backward()\<close>\<close>

definition call_backward :: "store \<Rightarrow> nat \<Rightarrow> error + store" where
  "call_backward s v = run_closure (backward_closure (s ! v)) s"

subsection \<open>The backward pass\<close>

text \<open>\<^verbatim>\<open>v._prev\<close>. A reference always designates an object of the store; an index outside
  the store, which no Python value corresponds to, has no parents.\<close>

definition prev_of :: "store \<Rightarrow> nat \<Rightarrow> nat list" where
  "prev_of s v = (if v < length s then prev (s ! v) else [])"

text \<open>The number of objects of the store that are not in \<open>visited\<close>.\<close>

definition unvisited :: "store \<Rightarrow> nat set \<Rightarrow> nat" where
  "unvisited s visited = card ({..<length s} - visited)"

text \<open>
  The nested function \<^verbatim>\<open>build_topo\<close>, with the two variables \<^verbatim>\<open>visited\<close> and \<^verbatim>\<open>topo\<close> of the
  enclosing call passed through; \<open>build_topo_children\<close> is its \<^verbatim>\<open>for child in v._prev\<close>
  loop. \<^verbatim>\<open>visited\<close> is a set of objects, which hash and compare by identity, so it is a set
  of references. The interpreter's limit on the depth of recursion is not modelled.
\<close>

function build_topo :: "store \<Rightarrow> nat \<Rightarrow> nat set \<times> nat list \<Rightarrow> nat set \<times> nat list"
  and build_topo_children :: "store \<Rightarrow> nat list \<Rightarrow> nat set \<times> nat list \<Rightarrow> nat set \<times> nat list"
where
  "build_topo s v (visited, topo) =
     (if v \<notin> visited then
        (case build_topo_children s (prev_of s v) (insert v visited, topo) of
           (visited', topo') \<Rightarrow> (visited', topo' @ [v]))
      else (visited, topo))"
| "build_topo_children s [] st = st"
| "build_topo_children s (child # children) st =
     build_topo_children s children (build_topo s child st)"
  by pat_completeness auto

text \<open>
  Every call either visits an object of the store for the first time or works on a shorter
  list of children with no fewer objects visited, so the recursion ends on every store,
  also on one whose \<open>prev\<close> fields form a cycle.
\<close>

termination build_topo
proof -
  have grows:
    "build_topo_build_topo_children_dom (Inl (s, v, st)) \<Longrightarrow> fst st \<subseteq> fst (build_topo s v st)"
    "build_topo_build_topo_children_dom (Inr (s, cs, st)) \<Longrightarrow>
       fst st \<subseteq> fst (build_topo_children s cs st)"
    for s v cs st
  proof (induct s v st and s cs st rule: build_topo_build_topo_children.pinduct)
    case (1 s v visited topo)
    then show ?case
      by (auto simp: build_topo.psimps split: prod.splits)
  next
    case (2 s st)
    then show ?case by (simp add: build_topo_children.psimps)
  next
    case (3 s child children st)
    then show ?case by (auto simp: build_topo_children.psimps)
  qed
  have fewer: "unvisited s b \<le> unvisited s a" if "a \<subseteq> b" for s a b
    unfolding unvisited_def using that by (intro card_mono) auto
  have strictly_fewer: "unvisited s (insert v a) < unvisited s a"
    if "v \<notin> a" "v < length s" for s v a
    unfolding unvisited_def using that by (intro psubset_card_mono) auto
  let ?m = "\<lambda>x. case x of
      Inl (s, v, st) \<Rightarrow> (unvisited s (fst st), 1::nat)
    | Inr (s, cs, st) \<Rightarrow> (unvisited s (fst st), 2 * length cs)"
  show ?thesis
  proof (relation "inv_image (less_than <*lex*> less_than) ?m")
    show "wf (inv_image (less_than <*lex*> less_than) ?m)"
      by (intro wf_inv_image wf_lex_prod wf_less_than)
  next
    fix s v visited topo
    assume "v \<notin> (visited :: nat set)"
    then show "(Inr (s, prev_of s v, insert v visited, topo), Inl (s, v, visited, topo))
        \<in> inv_image (less_than <*lex*> less_than) ?m"
      using strictly_fewer [of v visited s]
      by (cases "v < length s") (auto simp: prev_of_def unvisited_def)
  next
    fix s child children st
    show "(Inl (s, child, st), Inr (s, child # children, st))
        \<in> inv_image (less_than <*lex*> less_than) ?m"
      by simp
  next
    fix s child children st
    assume "build_topo_build_topo_children_dom (Inl (s, child, st))"
    from grows(1) [OF this]
    have "unvisited s (fst (build_topo s child st)) \<le> unvisited s (fst st)"
      by (rule fewer)
    then show "(Inr (s, children, build_topo s child st), Inr (s, child # children, st))
        \<in> inv_image (less_than <*lex*> less_than) ?m"
      by auto
  qed
qed

text \<open>The list \<^verbatim>\<open>topo\<close> once \<^verbatim>\<open>build_topo(self)\<close> has returned.\<close>

definition topo_order :: "store \<Rightarrow> nat \<Rightarrow> nat list" where
  "topo_order s self = snd (build_topo s self ({}, []))"

text \<open>
  The loop \<^verbatim>\<open>for v in reversed(topo): v._backward()\<close>. It returns the store it leaves, the
  objects whose \<^verbatim>\<open>_backward\<close> it called, in the order of the calls, and the exception that
  ended it, if one did. The list of calls is not a value of the program: it is kept to state
  how often a closure is called. A call that raises leaves the store as the calls before it
  made it.
\<close>

fun backward_loop :: "store \<Rightarrow> nat list \<Rightarrow> store \<times> nat list \<times> error option" where
  "backward_loop s [] = (s, [], None)"
| "backward_loop s (v # vs) =
     (case call_backward s v of
        Inl e \<Rightarrow> (s, [v], Some e)
      | Inr s' \<Rightarrow>
          (case backward_loop s' vs of (s'', called, raised) \<Rightarrow> (s'', v # called, raised)))"

text \<open>\<^verbatim>\<open>Variable.backward\<close>: build \<^verbatim>\<open>topo\<close>, set \<^verbatim>\<open>self.grad = 1\<close>, run the loop.\<close>

definition backward :: "store \<Rightarrow> nat \<Rightarrow> store \<times> nat list \<times> error option" where
  "backward s self =
     (let (visited, topo) = build_topo s self ({}, []);
          s1 = set_grad s self 1
      in backward_loop s1 (rev topo))"

text \<open>The three components of the result of \<open>backward\<close>.\<close>

definition store_after :: "store \<times> nat list \<times> error option \<Rightarrow> store" where
  "store_after r = fst r"

definition called :: "store \<times> nat list \<times> error option \<Rightarrow> nat list" where
  "called r = fst (snd r)"

definition raised :: "store \<times> nat list \<times> error option \<Rightarrow> error option" where
  "raised r = snd (snd r)"

subsection \<open>Reachability and the stores that the program builds\<close>

text \<open>\<open>reach s rt v\<close>: \<open>v\<close> is \<open>rt\<close> or is found from it by following \<^verbatim>\<open>_prev\<close>.\<close>

inductive reach :: "store \<Rightarrow> nat \<Rightarrow> nat \<Rightarrow> bool" for s :: store and rt :: nat where
  reach_root: "reach s rt rt"
| reach_prev: "reach s rt v \<Longrightarrow> p \<in> set (prev_of s v) \<Longrightarrow> reach s rt p"

code_pred reach .

text \<open>
  An object is constructed after its operands, and an operation stores in its result the
  closure that captured the operands and the result. \<open>wf_store\<close> says so of every object of
  the store: the parents of the object at index \<open>i\<close> have smaller indices, and its closure
  is \<^verbatim>\<open>lambda: None\<close> or captured exactly its parents and itself. The constructor and the
  six operations keep it (lemmas \<open>wf_store_Variable\<close> to \<open>wf_store_tanh_op\<close> below), so it
  holds of every store made with them from the empty one.
\<close>

definition closure_ok :: "nat \<Rightarrow> variable \<Rightarrow> bool" where
  "closure_ok i x =
     (case backward_closure x of
        NoOp \<Rightarrow> True
      | AddBackward self other out \<Rightarrow> out = i \<and> prev x = [self, other]
      | SubBackward self other out \<Rightarrow> out = i \<and> prev x = [self, other]
      | MulBackward self other out \<Rightarrow> out = i \<and> prev x = [self, other]
      | PowBackward self out exponent \<Rightarrow> out = i \<and> prev x = [self]
      | ReluBackward self out \<Rightarrow> out = i \<and> prev x = [self])"

definition wf_variable :: "nat \<Rightarrow> variable \<Rightarrow> bool" where
  "wf_variable i x = (list_all (\<lambda>p. p < i) (prev x) \<and> closure_ok i x)"

fun wf_from :: "nat \<Rightarrow> store \<Rightarrow> bool" where
  "wf_from i [] = True"
| "wf_from i (x # xs) = (wf_variable i x \<and> wf_from (Suc i) xs)"

definition wf_store :: "store \<Rightarrow> bool" where
  "wf_store s = wf_from 0 s"

text \<open>The store with every gradient erased: what a backward pass cannot change.\<close>

definition shape :: "store \<Rightarrow> store" where
  "shape s = map (\<lambda>x. x\<lparr>grad := 0\<rparr>) s"

text \<open>The objects whose \<open>grad\<close> a closure assigns to.\<close>

fun targets :: "closure \<Rightarrow> nat set" where
  "targets NoOp = {}"
| "targets (AddBackward self other out) = {self, other}"
| "targets (SubBackward self other out) = {self, other}"
| "targets (MulBackward self other out) = {self, other}"
| "targets (PowBackward self out exponent) = {self}"
| "targets (ReluBackward self out) = {self}"

text \<open>
  \<open>later s t\<close>: the store \<open>t\<close> still holds the objects of \<open>s\<close>, at the same references and
  with the fields they had in \<open>s\<close>, except for their gradients; it may hold more objects.
  Every store reached from \<open>s\<close> by the constructor, the operations, \<^verbatim>\<open>zero_grad\<close> and
  \<^verbatim>\<open>backward\<close> is such a store.
\<close>

definition later :: "store \<Rightarrow> store \<Rightarrow> bool" where
  "later s t = (take (length s) (shape t) = shape s)"

subsection \<open>Notions used in the proofs about \<open>build_topo\<close>\<close>

text \<open>Every parent of an element of \<open>topo\<close> stands in \<open>topo\<close> at a smaller position.\<close>

definition parents_before :: "store \<Rightarrow> nat list \<Rightarrow> bool" where
  "parents_before s topo =
     (\<forall>i<length topo. \<forall>p\<in>set (prev_of s (topo ! i)). p \<in> set (take i topo))"

definition good :: "store \<Rightarrow> nat list \<Rightarrow> bool" where
  "good s topo = (distinct topo \<and> parents_before s topo)"

text \<open>
  What holds of \<^verbatim>\<open>visited\<close> and \<^verbatim>\<open>topo\<close> whenever \<^verbatim>\<open>build_topo\<close> is entered within the
  children loop of an object of index \<open>b\<close>: the objects visited and not yet appended are
  those whose loop is still running, and their indices are at least \<open>b\<close>.
\<close>

definition dfs_inv :: "store \<Rightarrow> nat \<Rightarrow> nat set \<Rightarrow> nat list \<Rightarrow> bool" where
  "dfs_inv s b visited topo =
     (set topo \<subseteq> visited \<and> (\<forall>u\<in>visited. u < b \<longrightarrow> u \<in> set topo) \<and> good s topo)"

text \<open>What a call \<^verbatim>\<open>build_topo(v)\<close> does: it appends the list \<open>new\<close> and visits its elements.\<close>

definition dfs_post :: "store \<Rightarrow> nat \<Rightarrow> nat set \<Rightarrow> nat list \<Rightarrow> nat list \<Rightarrow> bool" where
  "dfs_post s v visited topo new =
     (build_topo s v (visited, topo) = (visited \<union> set new, topo @ new) \<and>
      good s (topo @ new) \<and> set new \<inter> visited = {} \<and>
      (\<forall>u\<in>set new. u \<le> v \<and> reach s v u) \<and> v \<in> visited \<union> set new \<and>
      (v \<notin> visited \<longrightarrow> new \<noteq> [] \<and> last new = v))"

text \<open>The store after \<^verbatim>\<open>self.grad = 1\<close> and the first call of the loop of \<^verbatim>\<open>backward\<close>,
  which is the call of the closure of \<open>self\<close>.\<close>

definition first_call :: "store \<Rightarrow> nat \<Rightarrow> store" where
  "first_call s self =
     (case call_backward (set_grad s self 1) self of
        Inl e \<Rightarrow> set_grad s self 1
      | Inr s' \<Rightarrow> s')"

subsection \<open>Example graphs\<close>

text \<open>A rendering of numbers as text for the examples; no example depends on it.\<close>

definition plain_fmt :: "real \<Rightarrow> string" where
  "plain_fmt x = []"

text \<open>\<^verbatim>\<open>a = Variable(1, 'a'); b = Variable(1, 'b'); c = a + b\<close>: two leaves of equal value.\<close>

definition equal_leaves :: store where
  "equal_leaves =
     (let (s1, a) = Variable [] 1 ''a'' 0 [] [];
          (s2, b) = Variable s1 1 ''b'' 0 [] [];
          (s3, c) = add plain_fmt s2 a (Var b)
      in s3)"

text \<open>\<^verbatim>\<open>x = Variable(0, 'x'); y = x ** 0\<close>\<close>

definition pow_at_zero :: store where
  "pow_at_zero =
     (let (s1, x) = Variable [] 0 ''x'' 0 [] []
      in case pow s1 x 0 of Inr (s2, y) \<Rightarrow> s2 | Inl e \<Rightarrow> s1)"

text \<open>\<^verbatim>\<open>a = Variable(3, 'a'); b = Variable(4, 'b')\<close>\<close>

definition two_leaves :: store where
  "two_leaves =
     (let (s1, a) = Variable [] 3 ''a'' 0 [] [];
          (s2, b) = Variable s1 4 ''b'' 0 [] []
      in s2)"

text \<open>\<^verbatim>\<open>x = Variable(5, 'x'); y = x.relu(); z = y.relu()\<close>\<close>

definition relu_chain :: store where
  "relu_chain =
     (let (s1, x) = Variable [] 5 ''x'' 0 [] [];
          (s2, y) = relu s1 x;
          (s3, z) = relu s2 y
      in s3)"

text \<open>\<^verbatim>\<open>a = Variable(3, 'a'); b = Variable(4, 'b'); c = a * b\<close>\<close>

definition product_graph :: store where
  "product_graph = fst (mul plain_fmt two_leaves 0 (Var 1))"

text \<open>\<^verbatim>\<open>a = Variable(2, 'a'); b = Variable(3, 'b'); c = a * b; d = c.relu(); e = c.relu();
  out = d + e\<close>: \<open>c\<close> is reached from \<open>out\<close> along two paths.\<close>

definition diamond :: store where
  "diamond =
     (let (s1, a) = Variable [] 2 ''a'' 0 [] [];
          (s2, b) = Variable s1 3 ''b'' 0 [] [];
          (s3, c) = mul plain_fmt s2 a (Var b);
          (s4, d) = relu s3 c;
          (s5, e) = relu s4 c;
          (s6, out) = add plain_fmt s5 d (Var e)
      in s6)"

section \<open>Properties\<close>

declare build_topo.simps [simp del]

lemmas store_ops =
  Variable_def lift_def set_backward_def set_grad_def iadd_grad_def prev_of_def

subsection \<open>Stores built by the constructor and the operations\<close>

lemma wf_from_nth: "wf_from k s \<longleftrightarrow> (\<forall>i<length s. wf_variable (k + i) (s ! i))"
proof (induction s arbitrary: k)
  case Nil
  then show ?case by simp
next
  case (Cons x xs)
  show ?case
    by (auto simp: Cons.IH less_Suc_eq_0_disj)
qed

lemma wf_store_nth: "wf_store s \<longleftrightarrow> (\<forall>i<length s. wf_variable i (s ! i))"
  by (simp add: wf_store_def wf_from_nth)

lemma prev_of_less: "wf_store s \<Longrightarrow> p \<in> set (prev_of s v) \<Longrightarrow> p < v"
  by (auto simp: wf_store_nth prev_of_def wf_variable_def list_all_iff split: if_splits)

subsection \<open>The topological order\<close>

lemma parents_before_snoc:
  "parents_before s (topo @ [v]) \<longleftrightarrow> parents_before s topo \<and> set (prev_of s v) \<subseteq> set topo"
  by (auto simp: parents_before_def less_Suc_eq nth_append all_conj_distrib)

lemma parents_before_Nil: "parents_before s []"
  by (simp add: parents_before_def)

lemma parents_before_closed:
  "parents_before s topo \<Longrightarrow> v \<in> set topo \<Longrightarrow> p \<in> set (prev_of s v) \<Longrightarrow> p \<in> set topo"
proof -
  assume pb: "parents_before s topo" and v: "v \<in> set topo" and p: "p \<in> set (prev_of s v)"
  from v obtain i where i: "i < length topo" "topo ! i = v"
    by (auto simp: in_set_conv_nth)
  with pb p have "p \<in> set (take i topo)"
    by (auto simp: parents_before_def)
  then show ?thesis by (rule in_set_takeD)
qed

lemma reach_trans: "reach s v u \<Longrightarrow> reach s r v \<Longrightarrow> reach s r u"
  by (induction rule: reach.induct) (auto intro: reach.intros)

lemma reach_le: "reach s r v \<Longrightarrow> wf_store s \<Longrightarrow> v \<le> r"
  by (induction rule: reach.induct) (auto dest: prev_of_less)

lemma dfs_inv_weaken: "dfs_inv s b visited topo \<Longrightarrow> c \<le> b \<Longrightarrow> dfs_inv s c visited topo"
  by (auto simp: dfs_inv_def)

lemma dfs_inv_extend:
  "dfs_inv s b visited topo \<Longrightarrow> good s (topo @ new) \<Longrightarrow>
   dfs_inv s b (visited \<union> set new) (topo @ new)"
  by (auto simp: dfs_inv_def)

text \<open>The children loop of an object of index \<open>w\<close>, given that \<^verbatim>\<open>build_topo\<close> is right on
  every object of smaller index.\<close>

lemma build_topo_children_correct:
  assumes IH: "\<And>c visited topo. c < w \<Longrightarrow> dfs_inv s (Suc c) visited topo \<Longrightarrow>
                 \<exists>new. dfs_post s c visited topo new"
  shows "\<forall>c\<in>set cs. c < w \<Longrightarrow> dfs_inv s w visited topo \<Longrightarrow>
         \<exists>new. build_topo_children s cs (visited, topo) = (visited \<union> set new, topo @ new) \<and>
               good s (topo @ new) \<and> set new \<inter> visited = {} \<and>
               (\<forall>u\<in>set new. u < w \<and> (\<exists>c\<in>set cs. reach s c u)) \<and>
               set cs \<subseteq> visited \<union> set new"
proof (induction cs arbitrary: visited topo)
  case Nil
  then have "build_topo_children s [] (visited, topo) = (visited \<union> set [], topo @ [])"
    and "good s (topo @ [])"
    by (simp_all add: dfs_inv_def)
  then show ?case by (intro exI [of _ "[]"]) simp
next
  case (Cons c cs)
  from Cons.prems have c: "c < w" and cs: "\<forall>c\<in>set cs. c < w" by simp_all
  have "dfs_inv s (Suc c) visited topo"
    using dfs_inv_weaken [OF Cons.prems(2), of "Suc c"] c by simp
  from IH [OF c this] obtain new1 where post1: "dfs_post s c visited topo new1" ..
  then have step1: "build_topo s c (visited, topo) = (visited \<union> set new1, topo @ new1)"
    and good1: "good s (topo @ new1)"
    and disj1: "set new1 \<inter> visited = {}"
    and below1: "\<forall>u\<in>set new1. u \<le> c \<and> reach s c u"
    and in1: "c \<in> visited \<union> set new1"
    by (simp_all add: dfs_post_def)
  from Cons.prems(2) good1 have "dfs_inv s w (visited \<union> set new1) (topo @ new1)"
    by (rule dfs_inv_extend)
  from Cons.IH [OF cs this] obtain new2 where
    step2: "build_topo_children s cs (visited \<union> set new1, topo @ new1) =
              (visited \<union> set new1 \<union> set new2, (topo @ new1) @ new2)"
    and good2: "good s ((topo @ new1) @ new2)"
    and disj2: "set new2 \<inter> (visited \<union> set new1) = {}"
    and below2: "\<forall>u\<in>set new2. u < w \<and> (\<exists>c\<in>set cs. reach s c u)"
    and in2: "set cs \<subseteq> visited \<union> set new1 \<union> set new2"
    by blast
  let ?new = "new1 @ new2"
  have "build_topo_children s (c # cs) (visited, topo) = (visited \<union> set ?new, topo @ ?new)"
    using step1 step2 by (simp add: Un_assoc)
  moreover have "good s (topo @ ?new)" using good2 by simp
  moreover have "set ?new \<inter> visited = {}" using disj1 disj2 by auto
  moreover have "\<forall>u\<in>set ?new. u < w \<and> (\<exists>c'\<in>set (c # cs). reach s c' u)"
    using below1 below2 c by auto
  moreover have "set (c # cs) \<subseteq> visited \<union> set ?new" using in1 in2 by auto
  ultimately show ?case by blast
qed

text \<open>\<^verbatim>\<open>build_topo(v)\<close>, by induction on the index of \<open>v\<close>: its parents have smaller ones.\<close>

lemma build_topo_correct:
  assumes wf: "wf_store s"
  shows "dfs_inv s (Suc v) visited topo \<Longrightarrow> \<exists>new. dfs_post s v visited topo new"
proof (induction v arbitrary: visited topo rule: less_induct)
  case (less w)
  note inv = less.prems
  show ?case
  proof (cases "w \<in> visited")
    case True
    have "dfs_post s w visited topo []"
      using True inv by (simp add: dfs_post_def dfs_inv_def build_topo.simps)
    then show ?thesis ..
  next
    case False
    have lt: "\<forall>c\<in>set (prev_of s w). c < w"
      using wf by (auto dest: prev_of_less)
    have inv': "dfs_inv s w (insert w visited) topo"
      using inv by (auto simp: dfs_inv_def)
    from build_topo_children_correct [of w s "prev_of s w" "insert w visited" topo,
        OF less.IH lt inv']
    obtain new where
      step: "build_topo_children s (prev_of s w) (insert w visited, topo) =
               (insert w visited \<union> set new, topo @ new)"
      and good: "good s (topo @ new)"
      and disj: "set new \<inter> insert w visited = {}"
      and below: "\<forall>u\<in>set new. u < w \<and> (\<exists>c\<in>set (prev_of s w). reach s c u)"
      and parents: "set (prev_of s w) \<subseteq> insert w visited \<union> set new"
      by blast
    let ?new = "new @ [w]"
    have eq: "build_topo s w (visited, topo) = (visited \<union> set ?new, topo @ ?new)"
      using False step by (simp add: build_topo.simps)
    have notin: "w \<notin> set topo" "w \<notin> set new"
      using False inv below by (auto simp: dfs_inv_def)
    have "set (prev_of s w) \<subseteq> set (topo @ new)"
    proof
      fix p assume p: "p \<in> set (prev_of s w)"
      with lt have "p < w" by simp
      moreover from p parents have "p \<in> insert w visited \<union> set new" ..
      ultimately show "p \<in> set (topo @ new)"
        using inv by (auto simp: dfs_inv_def)
    qed
    with good notin have good': "good s (topo @ ?new)"
      by (simp add: good_def parents_before_snoc [of s "topo @ new" w, simplified])
    have reach: "\<forall>u\<in>set ?new. u \<le> w \<and> reach s w u"
    proof
      fix u assume "u \<in> set ?new"
      then consider "u = w" | "u \<in> set new" by auto
      then show "u \<le> w \<and> reach s w u"
      proof cases
        case 1
        then show ?thesis by (simp add: reach_root)
      next
        case 2
        with below obtain c where "u < w" "c \<in> set (prev_of s w)" "reach s c u" by blast
        moreover have "reach s w c"
          using reach_prev [OF reach_root \<open>c \<in> set (prev_of s w)\<close>] .
        ultimately show ?thesis by (auto intro: reach_trans)
      qed
    qed
    have "dfs_post s w visited topo ?new"
      unfolding dfs_post_def using eq good' disj False reach by auto
    then show ?thesis ..
  qed
qed

lemma topo_order_props:
  assumes wf: "wf_store s"
  shows "distinct (topo_order s rt)" "parents_before s (topo_order s rt)"
    "set (topo_order s rt) = {v. reach s rt v}"
    "topo_order s rt \<noteq> []" "last (topo_order s rt) = rt"
proof -
  have "dfs_inv s (Suc rt) {} []"
    by (simp add: dfs_inv_def good_def parents_before_Nil)
  from build_topo_correct [OF wf this] obtain new where "dfs_post s rt {} [] new" ..
  then have eq: "topo_order s rt = new" and good: "good s new"
    and below: "\<forall>u\<in>set new. u \<le> rt \<and> reach s rt u"
    and last: "new \<noteq> []" "last new = rt"
    by (simp_all add: dfs_post_def topo_order_def)
  from good show "distinct (topo_order s rt)" "parents_before s (topo_order s rt)"
    by (simp_all add: eq good_def)
  from last show "topo_order s rt \<noteq> []" "last (topo_order s rt) = rt"
    by (simp_all add: eq)
  have rt: "rt \<in> set new" using last by (metis last_in_set)
  have "v \<in> set new" if "reach s rt v" for v
    using that
  proof (induction rule: reach.induct)
    case reach_root
    then show ?case by (rule rt)
  next
    case (reach_prev v p)
    with good show ?case by (auto simp: good_def dest: parents_before_closed)
  qed
  with below show "set (topo_order s rt) = {v. reach s rt v}"
    by (auto simp: eq)
qed

text \<open>
  Claim C2. For a store built by the constructor and the operations and any object \<open>rt\<close> of
  it, the list \<^verbatim>\<open>topo\<close> that \<^verbatim>\<open>build_topo(rt)\<close> leaves holds exactly the objects reachable
  from \<open>rt\<close> through \<^verbatim>\<open>_prev\<close>, each once; every parent of an element stands at a smaller
  position than the element; the first element has no parents and the last one is \<open>rt\<close>.
  Elements are references, so two different reachable objects are both in the list even when
  their \<open>data\<close> are equal.
\<close>

theorem topo_order_correct:
  assumes "wf_store s" and "rt < length s"
  shows "set (topo_order s rt) = {v. reach s rt v} \<and>
         distinct (topo_order s rt) \<and>
         (\<forall>i<length (topo_order s rt). \<forall>p\<in>set (prev (s ! (topo_order s rt ! i))).
            \<exists>j<i. topo_order s rt ! j = p) \<and>
         topo_order s rt \<noteq> [] \<and>
         prev (s ! hd (topo_order s rt)) = [] \<and>
         last (topo_order s rt) = rt \<and>
         (\<forall>u v. reach s rt u \<and> reach s rt v \<and> u \<noteq> v \<and> data (s ! u) = data (s ! v) \<longrightarrow>
            u \<in> set (topo_order s rt) \<and> v \<in> set (topo_order s rt))"
proof -
  let ?t = "topo_order s rt"
  note props = topo_order_props [OF assms(1), of rt]
  have inside: "v < length s" if "v \<in> set ?t" for v
    using that props(3) reach_le [of s rt v] assms by auto
  have before: "\<exists>j<i. ?t ! j = p" if "i < length ?t" "p \<in> set (prev (s ! (?t ! i)))" for i p
  proof -
    from that(1) have "?t ! i \<in> set ?t" by simp
    then have "prev_of s (?t ! i) = prev (s ! (?t ! i))"
      by (simp add: prev_of_def inside)
    with props(2) that have "p \<in> set (take i ?t)"
      by (auto simp: parents_before_def)
    then show ?thesis
      by (auto simp: in_set_conv_nth)
  qed
  have "prev (s ! hd ?t) = []"
  proof (rule ccontr)
    assume "prev (s ! hd ?t) \<noteq> []"
    then obtain p where "p \<in> set (prev (s ! (?t ! 0)))"
      using props(4) by (cases "prev (s ! hd ?t)") (auto simp: hd_conv_nth)
    with before [of 0 p] props(4) show False by simp
  qed
  with props before show ?thesis by auto
qed

theorem topo_order_correct_witness:
  "wf_store equal_leaves \<and> 2 < length equal_leaves \<and>
   data (equal_leaves ! 0) = data (equal_leaves ! 1) \<and>
   {v. reach equal_leaves 2 v} = {0, 1, 2}"
proof -
  have wf: "wf_store equal_leaves"
    by (simp add: equal_leaves_def add_def store_ops wf_store_def wf_variable_def closure_ok_def)
  have len: "2 < length equal_leaves"
    by (simp add: equal_leaves_def add_def store_ops)
  have "topo_order equal_leaves 2 = [0, 1, 2]"
    by (simp add: equal_leaves_def add_def store_ops topo_order_def build_topo.simps)
  with topo_order_correct [OF wf len] wf len show ?thesis
    by (auto simp: equal_leaves_def add_def store_ops)
qed

subsection \<open>What calling closures changes\<close>

lemma length_iadd_grad [simp]: "length (iadd_grad s i d) = length s"
  by (simp add: iadd_grad_def)

lemma length_set_grad [simp]: "length (set_grad s i d) = length s"
  by (simp add: set_grad_def)

lemma nth_iadd_grad_neq: "j \<noteq> i \<Longrightarrow> iadd_grad s i d ! j = s ! j"
  by (simp add: iadd_grad_def)

lemma nth_set_grad_neq: "j \<noteq> i \<Longrightarrow> set_grad s i d ! j = s ! j"
  by (simp add: set_grad_def)

lemma grad_iadd_grad:
  "i < length s \<Longrightarrow> grad (iadd_grad s i d ! j) = (if j = i then grad (s ! i) + d else grad (s ! j))"
  by (simp add: iadd_grad_def nth_list_update)

lemma shape_iadd_grad [simp]: "shape (iadd_grad s i d) = shape s"
  by (cases "i < length s") (simp_all add: shape_def iadd_grad_def map_update list_update_same_conv list_update_beyond)

lemma shape_set_grad [simp]: "shape (set_grad s i d) = shape s"
  by (cases "i < length s") (simp_all add: shape_def set_grad_def map_update list_update_same_conv list_update_beyond)

lemma shape_length: "shape s = shape s' \<Longrightarrow> length s = length s'"
  by (auto simp: shape_def dest: map_eq_imp_length_eq)

lemma shape_nth:
  assumes "shape s = shape s'" and "i < length s"
  shows "(s ! i)\<lparr>grad := 0\<rparr> = (s' ! i)\<lparr>grad := 0\<rparr>"
proof -
  from assms shape_length [OF assms(1)] have "i < length s'" by simp
  with assms(2) have "shape s ! i = (s ! i)\<lparr>grad := 0\<rparr>" "shape s' ! i = (s' ! i)\<lparr>grad := 0\<rparr>"
    by (simp_all add: shape_def)
  with assms(1) show ?thesis by simp
qed

lemma shape_fields:
  assumes "shape s = shape s'" and "i < length s"
  shows "data (s ! i) = data (s' ! i)" "label (s ! i) = label (s' ! i)"
    "prev (s ! i) = prev (s' ! i)" "op (s ! i) = op (s' ! i)"
    "backward_closure (s ! i) = backward_closure (s' ! i)"
proof -
  note eq = shape_nth [OF assms]
  show "data (s ! i) = data (s' ! i)" using arg_cong [OF eq, of data] by simp
  show "label (s ! i) = label (s' ! i)" using arg_cong [OF eq, of label] by simp
  show "prev (s ! i) = prev (s' ! i)" using arg_cong [OF eq, of prev] by simp
  show "op (s ! i) = op (s' ! i)" using arg_cong [OF eq, of op] by simp
  show "backward_closure (s ! i) = backward_closure (s' ! i)"
    using arg_cong [OF eq, of backward_closure] by simp
qed

lemma shape_prev_of: "shape s = shape s' \<Longrightarrow> prev_of s v = prev_of s' v"
proof -
  assume eq: "shape s = shape s'"
  show ?thesis
  proof (cases "v < length s")
    case True
    with shape_length [OF eq] shape_fields(3) [OF eq True] show ?thesis
      by (simp add: prev_of_def)
  next
    case False
    with shape_length [OF eq] show ?thesis by (simp add: prev_of_def)
  qed
qed

lemma shape_wf_store: "shape s = shape s' \<Longrightarrow> wf_store s \<Longrightarrow> wf_store s'"
proof -
  assume eq: "shape s = shape s'" and wf: "wf_store s"
  have "wf_variable i (s' ! i)" if "i < length s'" for i
  proof -
    from that shape_length [OF eq] have i: "i < length s" by simp
    with wf have "wf_variable i (s ! i)" by (simp add: wf_store_nth)
    then show ?thesis
      by (simp add: wf_variable_def closure_ok_def shape_fields(3,5) [OF eq i]
          split: closure.splits)
  qed
  then show ?thesis by (simp add: wf_store_nth)
qed



lemma build_topo_prev_of:
  "(\<And>u. prev_of s' u = prev_of s u) \<Longrightarrow> build_topo s' v st = build_topo s v st"
  "(\<And>u. prev_of s' u = prev_of s u) \<Longrightarrow>
     build_topo_children s' cs st = build_topo_children s cs st"
proof (induction s v st and s cs st rule: build_topo_build_topo_children.induct)
  case (1 s v visited topo)
  then show ?case
    by (auto simp: build_topo.simps)
next
  case (2 s st)
  then show ?case by simp
next
  case (3 s child children st)
  then show ?case by simp
qed

lemma topo_order_shape: "shape s = shape s' \<Longrightarrow> topo_order s rt = topo_order s' rt"
  using build_topo_prev_of(1) [of s s' rt "({}, [])"] shape_prev_of [of s s']
  by (simp add: topo_order_def)


lemma run_closure_shape: "run_closure c s = Inr s' \<Longrightarrow> shape s' = shape s"
  by (cases c) (auto simp: Let_def split: sum.splits if_splits)

lemma run_closure_frame: "run_closure c s = Inr s' \<Longrightarrow> i \<notin> targets c \<Longrightarrow> s' ! i = s ! i"
  by (cases c) (auto simp: Let_def nth_iadd_grad_neq split: sum.splits if_splits)

lemma run_closure_length: "run_closure c s = Inr s' \<Longrightarrow> length s' = length s"
  by (auto dest!: run_closure_shape shape_length)

lemma wf_targets:
  "wf_store s \<Longrightarrow> v < length s \<Longrightarrow> targets (backward_closure (s ! v)) \<subseteq> set (prev_of s v)"
proof -
  assume "wf_store s" and v: "v < length s"
  then have "closure_ok v (s ! v)"
    by (simp add: wf_store_nth wf_variable_def)
  with v show ?thesis
    by (cases "backward_closure (s ! v)") (simp_all add: closure_ok_def prev_of_def)
qed

lemma backward_loop_shape: "shape (fst (backward_loop s vs)) = shape s"
proof (induction vs arbitrary: s)
  case Nil
  then show ?case by simp
next
  case (Cons v vs)
  show ?case
  proof (cases "call_backward s v")
    case (Inl e)
    then show ?thesis by simp
  next
    case (Inr s')
    then have "shape s' = shape s"
      by (simp add: call_backward_def run_closure_shape)
    with Cons.IH [of s'] Inr show ?thesis
      by (cases "backward_loop s' vs") simp
  qed
qed

lemma backward_loop_frame:
  "\<forall>v\<in>set vs. v < length s \<and> i \<notin> targets (backward_closure (s ! v)) \<Longrightarrow>
   fst (backward_loop s vs) ! i = s ! i"
proof (induction vs arbitrary: s)
  case Nil
  then show ?case by simp
next
  case (Cons v vs)
  show ?case
  proof (cases "call_backward s v")
    case (Inl e)
    then show ?thesis by simp
  next
    case (Inr s')
    then have run: "run_closure (backward_closure (s ! v)) s = Inr s'"
      by (simp add: call_backward_def)
    from run have sh: "shape s = shape s'" by (simp add: run_closure_shape)
    have same: "s' ! i = s ! i"
      using run_closure_frame [OF run, of i] Cons.prems by simp
    have "\<forall>u\<in>set vs. u < length s' \<and> i \<notin> targets (backward_closure (s' ! u))"
    proof
      fix u assume "u \<in> set vs"
      with Cons.prems have u: "u < length s" "i \<notin> targets (backward_closure (s ! u))"
        by simp_all
      with shape_length [OF sh] shape_fields(5) [OF sh u(1)]
      show "u < length s' \<and> i \<notin> targets (backward_closure (s' ! u))" by simp
    qed
    from Cons.IH [OF this] same Inr show ?thesis
      by (cases "backward_loop s' vs") simp
  qed
qed

lemma backward_loop_called: "\<exists>n. called (backward_loop s vs) = take n vs"
proof (induction vs arbitrary: s)
  case Nil
  show ?case by (simp add: called_def)
next
  case (Cons v vs)
  show ?case
  proof (cases "call_backward s v")
    case (Inl e)
    then have "called (backward_loop s (v # vs)) = take 1 (v # vs)"
      by (simp add: called_def)
    then show ?thesis ..
  next
    case (Inr s')
    from Cons.IH [of s'] obtain n where "called (backward_loop s' vs) = take n vs" ..
    with Inr have "called (backward_loop s (v # vs)) = take (Suc n) (v # vs)"
      by (cases "backward_loop s' vs") (simp add: called_def)
    then show ?thesis ..
  qed
qed

lemma backward_loop_complete:
  "raised (backward_loop s vs) = None \<Longrightarrow> called (backward_loop s vs) = vs"
proof (induction vs arbitrary: s)
  case Nil
  show ?case by (simp add: called_def)
next
  case (Cons v vs)
  show ?case
  proof (cases "call_backward s v")
    case (Inl e)
    with Cons.prems show ?thesis by (simp add: raised_def)
  next
    case (Inr s')
    with Cons.prems have "raised (backward_loop s' vs) = None"
      by (cases "backward_loop s' vs") (simp add: raised_def)
    from Cons.IH [OF this] Inr show ?thesis
      by (cases "backward_loop s' vs") (simp add: called_def)
  qed
qed

subsection \<open>What a backward pass changes and which closures it calls\<close>

lemma backward_eq: "backward s rt = backward_loop (set_grad s rt 1) (rev (topo_order s rt))"
  by (simp add: backward_def topo_order_def case_prod_beta)

lemma topo_order_inside:
  "wf_store s \<Longrightarrow> rt < length s \<Longrightarrow> v \<in> set (topo_order s rt) \<Longrightarrow> reach s rt v \<and> v < length s"
  using topo_order_props(3) [of s rt] reach_le [of s rt v] by auto

lemma count_list_distinct: "distinct xs \<Longrightarrow> v \<in> set xs \<Longrightarrow> count_list xs v = 1"
  by (induction xs) auto

lemma count_list_take: "count_list (take n xs) v \<le> count_list xs v"
proof -
  have "count_list (take n xs @ drop n xs) v = count_list (take n xs) v + count_list (drop n xs) v"
    by (rule count_list_append)
  then show ?thesis by simp
qed

text \<open>The closures called by a pass from \<open>rt\<close> write neither to \<open>rt\<close> nor to an object that
  is not reachable from \<open>rt\<close>.\<close>

lemma backward_untouched:
  assumes wf: "wf_store s" and rt: "rt < length s"
    and i: "i = rt \<or> \<not> reach s rt i"
  shows "store_after (backward s rt) ! i = set_grad s rt 1 ! i"
proof -
  let ?s1 = "set_grad s rt 1"
  have sh: "shape s = shape ?s1" by simp
  have "\<forall>v\<in>set (rev (topo_order s rt)).
          v < length ?s1 \<and> i \<notin> targets (backward_closure (?s1 ! v))"
  proof
    fix v assume "v \<in> set (rev (topo_order s rt))"
    then have v: "reach s rt v" "v < length s"
      using topo_order_inside [OF wf rt, of v] by simp_all
    have "i \<notin> set (prev_of s v)"
    proof
      assume p: "i \<in> set (prev_of s v)"
      then have "reach s rt i" using v(1) by (auto intro: reach_prev)
      moreover from p have "i < v" using wf by (rule prev_of_less [rotated])
      moreover have "v \<le> rt" using v(1) wf by (rule reach_le)
      ultimately show False using i by auto
    qed
    moreover have "targets (backward_closure (s ! v)) \<subseteq> set (prev_of s v)"
      using wf v(2) by (rule wf_targets)
    moreover have "backward_closure (?s1 ! v) = backward_closure (s ! v)"
      using shape_fields(5) [OF sh v(2)] by simp
    ultimately show "v < length ?s1 \<and> i \<notin> targets (backward_closure (?s1 ! v))"
      using v(2) by auto
  qed
  then show ?thesis
    unfolding backward_eq store_after_def by (rule backward_loop_frame)
qed

lemma backward_shape: "shape (store_after (backward s rt)) = shape s"
  by (simp add: backward_eq store_after_def backward_loop_shape)

lemma equal_leaves_eq:
  "equal_leaves =
    [\<lparr>data = 1, label = ''a'', grad = 0, prev = [], op = [], backward_closure = NoOp\<rparr>,
     \<lparr>data = 1, label = ''b'', grad = 0, prev = [], op = [], backward_closure = NoOp\<rparr>,
     \<lparr>data = 2, label = [], grad = 0, prev = [0, 1], op = ''+'',
       backward_closure = AddBackward 0 1 2\<rparr>]"
  by (simp add: equal_leaves_def add_def store_ops)

lemma equal_leaves_wf: "wf_store equal_leaves"
  by (simp add: equal_leaves_eq wf_store_def wf_variable_def closure_ok_def)

text \<open>
  Claim C9. \<^verbatim>\<open>backward\<close> on an object \<open>rt\<close> of a store built by the constructor and the
  operations leaves \<open>rt.grad = 1\<close>, whatever it was before. The pass returns no value: its
  result here is the store it leaves (with the calls made and the exception raised, if any).
  In that store no object was added or removed, every object has the \<open>data\<close>, \<open>_prev\<close>,
  \<open>_op\<close>, \<open>label\<close> and \<open>_backward\<close> it had, and an object not reachable from \<open>rt\<close> is
  unchanged in every field. This holds also of a pass that an exception ends.
\<close>

theorem backward_frame:
  assumes "wf_store s" and "rt < length s"
  shows "grad (store_after (backward s rt) ! rt) = 1 \<and>
         length (store_after (backward s rt)) = length s \<and>
         (\<forall>i<length s.
            data (store_after (backward s rt) ! i) = data (s ! i) \<and>
            prev (store_after (backward s rt) ! i) = prev (s ! i) \<and>
            op (store_after (backward s rt) ! i) = op (s ! i) \<and>
            label (store_after (backward s rt) ! i) = label (s ! i) \<and>
            backward_closure (store_after (backward s rt) ! i) = backward_closure (s ! i)) \<and>
         (\<forall>i. \<not> reach s rt i \<longrightarrow> store_after (backward s rt) ! i = s ! i)"
proof -
  let ?s' = "store_after (backward s rt)"
  have sh: "shape s = shape ?s'" by (simp add: backward_shape)
  have "grad (?s' ! rt) = 1"
    using backward_untouched [OF assms, of rt] assms(2) by (simp add: set_grad_def)
  moreover have "length ?s' = length s"
    using shape_length [OF sh] by simp
  moreover have "?s' ! i = s ! i" if "\<not> reach s rt i" for i
  proof -
    from that have "i \<noteq> rt" by (auto intro: reach_root)
    with backward_untouched [OF assms, of i] that show ?thesis
      by (simp add: nth_set_grad_neq)
  qed
  ultimately show ?thesis
    using shape_fields [OF sh] by simp
qed

theorem backward_frame_witness:
  "wf_store equal_leaves \<and> 1 < length equal_leaves \<and> \<not> reach equal_leaves 1 2 \<and>
   grad (store_after (backward equal_leaves 1) ! 1) = 1 \<and>
   data (store_after (backward equal_leaves 1) ! 1) = data (equal_leaves ! 1) \<and>
   store_after (backward equal_leaves 1) ! 2 = equal_leaves ! 2"
proof -
  have len: "1 < length equal_leaves" by (simp add: equal_leaves_eq)
  have unreachable: "\<not> reach equal_leaves 1 2"
    using reach_le [of equal_leaves 1 2] equal_leaves_wf by auto
  from backward_frame [OF equal_leaves_wf len] equal_leaves_wf len unreachable
  show ?thesis by simp
qed

text \<open>
  Claim C1, as amended. During a call of \<^verbatim>\<open>backward\<close> on an object \<open>rt\<close> of a store built by
  the constructor and the operations, every object reachable from \<open>rt\<close> occurs exactly once
  in \<^verbatim>\<open>topo\<close>, and its \<^verbatim>\<open>_backward\<close> is called at most once, also when the object is reached
  along several paths. It is called exactly once when no call raises.
\<close>

theorem backward_calls_at_most_once:
  assumes "wf_store s" and "rt < length s"
  shows "(\<forall>v. reach s rt v \<longrightarrow> count_list (topo_order s rt) v = 1) \<and>
         (\<forall>v. reach s rt v \<longrightarrow> count_list (called (backward s rt)) v \<le> 1) \<and>
         (raised (backward s rt) = None \<longrightarrow>
            (\<forall>v. reach s rt v \<longrightarrow> count_list (called (backward s rt)) v = 1))"
proof -
  let ?t = "topo_order s rt"
  note props = topo_order_props [OF assms(1), of rt]
  have once: "count_list ?t v = 1" if "reach s rt v" for v
    using that props(1,3) by (intro count_list_distinct) simp_all
  have rev: "count_list (rev ?t) v = count_list ?t v" for v
    by simp
  obtain n where n: "called (backward s rt) = take n (rev ?t)"
    using backward_loop_called [of "set_grad s rt 1" "rev ?t"] by (auto simp: backward_eq)
  have "count_list (called (backward s rt)) v \<le> 1" if "reach s rt v" for v
    using count_list_take [of n "rev ?t" v] once [OF that] by (simp add: n)
  moreover have "count_list (called (backward s rt)) v = 1"
    if "raised (backward s rt) = None" "reach s rt v" for v
    using backward_loop_complete [of "set_grad s rt 1" "rev ?t"] that once [of v]
    by (simp add: backward_eq)
  ultimately show ?thesis using once by blast
qed

lemma diamond_eq:
  "diamond =
    [\<lparr>data = 2, label = ''a'', grad = 0, prev = [], op = [], backward_closure = NoOp\<rparr>,
     \<lparr>data = 3, label = ''b'', grad = 0, prev = [], op = [], backward_closure = NoOp\<rparr>,
     \<lparr>data = 6, label = ''a'', grad = 0, prev = [0, 1], op = ''*'',
       backward_closure = MulBackward 0 1 2\<rparr>,
     \<lparr>data = 6, label = ''a'', grad = 0, prev = [2], op = ''relu'',
       backward_closure = ReluBackward 2 3\<rparr>,
     \<lparr>data = 6, label = ''a'', grad = 0, prev = [2], op = ''relu'',
       backward_closure = ReluBackward 2 4\<rparr>,
     \<lparr>data = 12, label = [], grad = 0, prev = [3, 4], op = ''+'',
       backward_closure = AddBackward 3 4 5\<rparr>]"
  by (simp add: diamond_def mul_def relu_def add_def store_ops)

theorem backward_calls_at_most_once_witness:
  "wf_store diamond \<and> 5 < length diamond \<and> reach diamond 5 2 \<and>
   raised (backward diamond 5) = None \<and>
   count_list (topo_order diamond 5) 2 = 1 \<and>
   count_list (called (backward diamond 5)) 2 = 1 \<and>
   map grad (store_after (backward diamond 5)) = [6, 4, 2, 1, 1, 1]"
proof -
  have wf: "wf_store diamond"
    by (simp add: diamond_eq wf_store_def wf_variable_def closure_ok_def)
  have len: "5 < length diamond" by (simp add: diamond_eq)
  have "reach diamond 5 3"
    by (rule reach_prev [OF reach_root]) (simp add: diamond_eq prev_of_def)
  then have r: "reach diamond 5 2"
    by (rule reach_prev) (simp add: diamond_eq prev_of_def)
  have run: "backward diamond 5 =
    ([\<lparr>data = 2, label = ''a'', grad = 6, prev = [], op = [], backward_closure = NoOp\<rparr>,
     \<lparr>data = 3, label = ''b'', grad = 4, prev = [], op = [], backward_closure = NoOp\<rparr>,
     \<lparr>data = 6, label = ''a'', grad = 2, prev = [0, 1], op = ''*'',
       backward_closure = MulBackward 0 1 2\<rparr>,
     \<lparr>data = 6, label = ''a'', grad = 1, prev = [2], op = ''relu'',
       backward_closure = ReluBackward 2 3\<rparr>,
     \<lparr>data = 6, label = ''a'', grad = 1, prev = [2], op = ''relu'',
       backward_closure = ReluBackward 2 4\<rparr>,
     \<lparr>data = 12, label = [], grad = 1, prev = [3, 4], op = ''+'',
       backward_closure = AddBackward 3 4 5\<rparr>], [5, 4, 3, 2, 1, 0], None)"
    by (simp add: diamond_eq backward_def build_topo.simps prev_of_def set_grad_def
        call_backward_def iadd_grad_def)
  then have "raised (backward diamond 5) = None"
    and "map grad (store_after (backward diamond 5)) = [6, 4, 2, 1, 1, 1]"
    by (simp_all add: raised_def store_after_def)
  with backward_calls_at_most_once [OF wf len] wf len r
  show ?thesis by simp
qed

text \<open>
  Claim C1 as stated fails: for \<^verbatim>\<open>x = Variable(0); y = x ** 0\<close> the call \<^verbatim>\<open>y.backward()\<close>
  calls the closure of \<open>y\<close>, which evaluates \<^verbatim>\<open>0 ** -1\<close> and raises \<open>ZeroDivisionError\<close>;
  the \<^verbatim>\<open>_backward\<close> of \<open>x\<close>, which is reachable from \<open>y\<close>, is called zero times.
\<close>

theorem backward_calls_counterexample:
  "wf_store pow_at_zero \<and> 1 < length pow_at_zero \<and> reach pow_at_zero 1 0 \<and>
   raised (backward pow_at_zero 1) = Some ZeroDivisionError \<and>
   count_list (called (backward pow_at_zero 1)) 0 = 0"
proof -
  have s: "pow_at_zero =
    [\<lparr>data = 0, label = ''x'', grad = 0, prev = [], op = [], backward_closure = NoOp\<rparr>,
     \<lparr>data = 1, label = ''x'', grad = 0, prev = [0], op = ''pow'',
       backward_closure = PowBackward 0 1 0\<rparr>]"
    by (simp add: pow_at_zero_def pow_def py_pow_def store_ops)
  have "reach pow_at_zero 1 0"
    by (rule reach_prev [OF reach_root]) (simp add: s prev_of_def)
  moreover have "backward pow_at_zero 1 = (set_grad pow_at_zero 1 1, [1], Some ZeroDivisionError)"
    by (simp add: s backward_def build_topo.simps prev_of_def set_grad_def
        call_backward_def py_pow_def)
  moreover have "wf_store pow_at_zero" "1 < length pow_at_zero"
    by (simp_all add: s wf_store_def wf_variable_def closure_ok_def)
  ultimately show ?thesis
    by (simp add: called_def raised_def)
qed

subsection \<open>The constructor, the operations and the pass keep \<open>wf_store\<close>\<close>

lemma wf_store_snoc: "wf_store s \<Longrightarrow> wf_variable (length s) x \<Longrightarrow> wf_store (s @ [x])"
  by (auto simp: wf_store_nth nth_append less_Suc_eq)

lemma wf_store_Nil: "wf_store []"
  by (simp add: wf_store_def)

lemma wf_store_Variable:
  "wf_store s \<Longrightarrow> \<forall>p\<in>set ps. p < length s \<Longrightarrow> wf_store (fst (Variable s d l g o' ps))"
  by (simp add: Variable_def wf_store_snoc wf_variable_def closure_ok_def list_all_iff)

lemma wf_store_lift:
  "wf_store s \<Longrightarrow> wf_store (fst (lift fmt s other0))"
  by (cases other0) (simp_all add: lift_def wf_store_Variable)

lemma lift_snd_less:
  "(case other0 of Var j \<Rightarrow> j < length s | Num x \<Rightarrow> True) \<Longrightarrow>
   snd (lift fmt s other0) < length (fst (lift fmt s other0))"
  by (cases other0) (simp_all add: lift_def Variable_def)

lemma lift_length: "length s \<le> length (fst (lift fmt s other0))"
  by (cases other0) (simp_all add: lift_def Variable_def)

lemma set_backward_snoc: "set_backward (s @ [x]) (length s) c = s @ [x\<lparr>backward_closure := c\<rparr>]"
  by (simp add: set_backward_def)

lemma wf_store_add:
  assumes "wf_store s" "self < length s" "case other0 of Var j \<Rightarrow> j < length s | Num x \<Rightarrow> True"
  shows "wf_store (fst (add fmt s self other0))"
proof -
  obtain s1 other where l: "lift fmt s other0 = (s1, other)" by (cases "lift fmt s other0")
  with wf_store_lift [OF assms(1), of fmt other0] lift_snd_less [OF assms(3), of fmt]
    lift_length [of s fmt other0] assms(2)
  have "wf_store s1" "other < length s1" "self < length s1" by simp_all
  then show ?thesis
    by (simp add: add_def l Variable_def set_backward_snoc wf_store_snoc wf_variable_def
        closure_ok_def)
qed

lemma wf_store_sub:
  assumes "wf_store s" "self < length s" "case other0 of Var j \<Rightarrow> j < length s | Num x \<Rightarrow> True"
  shows "wf_store (fst (sub fmt s self other0))"
proof -
  obtain s1 other where l: "lift fmt s other0 = (s1, other)" by (cases "lift fmt s other0")
  with wf_store_lift [OF assms(1), of fmt other0] lift_snd_less [OF assms(3), of fmt]
    lift_length [of s fmt other0] assms(2)
  have "wf_store s1" "other < length s1" "self < length s1" by simp_all
  then show ?thesis
    by (simp add: sub_def l Variable_def set_backward_snoc wf_store_snoc wf_variable_def
        closure_ok_def)
qed

lemma wf_store_mul:
  assumes "wf_store s" "self < length s" "case other0 of Var j \<Rightarrow> j < length s | Num x \<Rightarrow> True"
  shows "wf_store (fst (mul fmt s self other0))"
proof -
  obtain s1 other where l: "lift fmt s other0 = (s1, other)" by (cases "lift fmt s other0")
  with wf_store_lift [OF assms(1), of fmt other0] lift_snd_less [OF assms(3), of fmt]
    lift_length [of s fmt other0] assms(2)
  have "wf_store s1" "other < length s1" "self < length s1" by simp_all
  then show ?thesis
    by (simp add: mul_def l Variable_def set_backward_snoc wf_store_snoc wf_variable_def
        closure_ok_def)
qed

lemma wf_store_pow:
  "wf_store s \<Longrightarrow> self < length s \<Longrightarrow> pow s self k = Inr (s', out) \<Longrightarrow> wf_store s'"
  by (auto simp: pow_def Variable_def set_backward_snoc wf_store_snoc wf_variable_def
      closure_ok_def split: sum.splits)

lemma wf_store_relu: "wf_store s \<Longrightarrow> self < length s \<Longrightarrow> wf_store (fst (relu s self))"
  by (simp add: relu_def Variable_def set_backward_snoc wf_store_snoc wf_variable_def
      closure_ok_def)

lemma wf_store_tanh_op: "wf_store s \<Longrightarrow> self < length s \<Longrightarrow> wf_store (fst (tanh_op s self))"
  by (simp add: tanh_op_def Variable_def wf_store_snoc wf_variable_def closure_ok_def)

lemma wf_store_backward: "wf_store s \<Longrightarrow> wf_store (store_after (backward s rt))"
  using shape_wf_store [of s "store_after (backward s rt)"] by (simp add: backward_shape)

lemma wf_store_zero_grad: "wf_store s \<Longrightarrow> wf_store (zero_grad s v)"
  using shape_wf_store [of s "zero_grad s v"] by (simp add: zero_grad_def)

lemma iadd_grad_zero: "iadd_grad s i 0 = s"
  by (simp add: iadd_grad_def list_update_same_conv list_update_beyond not_less) 

lemma data_iadd_grad: "data (iadd_grad s i d ! j) = data (s ! j)"
  by (cases "i < length s"; cases "j = i") (simp_all add: iadd_grad_def list_update_beyond)

lemma length_shape [simp]: "length (shape s) = length s"
  by (simp add: shape_def)

lemma later_refl: "later s s"
  by (simp add: later_def)

lemma later_shape: "shape t = shape s \<Longrightarrow> later s t"
  using shape_length [of t s] by (simp add: later_def)

lemma later_length: "later s t \<Longrightarrow> length s \<le> length t"
proof -
  assume "later s t"
  then have "length (take (length s) (shape t)) = length (shape s)"
    by (simp add: later_def)
  then show ?thesis by (simp add: shape_def)
qed

lemma later_fields:
  assumes "later s t" and "i < length s"
  shows "data (t ! i) = data (s ! i)" "label (t ! i) = label (s ! i)"
    "prev (t ! i) = prev (s ! i)" "op (t ! i) = op (s ! i)"
    "backward_closure (t ! i) = backward_closure (s ! i)"
proof -
  have "shape (take (length s) t) = shape s"
    using assms(1) by (simp add: later_def shape_def take_map)
  moreover have "i < length (take (length s) t)"
    using later_length [OF assms(1)] assms(2) by simp
  moreover have "take (length s) t ! i = t ! i"
    using assms(2) by simp
  ultimately show "data (t ! i) = data (s ! i)" "label (t ! i) = label (s ! i)"
    "prev (t ! i) = prev (s ! i)" "op (t ! i) = op (s ! i)"
    "backward_closure (t ! i) = backward_closure (s ! i)"
    using shape_fields [of "take (length s) t" s i] by simp_all
qed

lemma later_snoc: "later (s @ [x]) t \<Longrightarrow> later s t"
proof -
  assume l: "later (s @ [x]) t"
  have "take (length s) (take (length (s @ [x])) (shape t)) = take (length s) (shape (s @ [x]))"
    using l by (simp add: later_def)
  then show ?thesis by (simp add: later_def shape_def)
qed

text \<open>The constructor, the operations, \<^verbatim>\<open>zero_grad\<close> and \<^verbatim>\<open>backward\<close> lead from a store
  to a later one.\<close>

lemma later_append: "later s t \<Longrightarrow> later s (t @ xs)"
proof -
  assume l: "later s t"
  from later_length [OF l] have "take (length s) (shape (t @ xs)) = take (length s) (shape t)"
    by (simp add: shape_def)
  with l show ?thesis by (simp add: later_def)
qed

lemma later_same_shape: "later s t \<Longrightarrow> shape t' = shape t \<Longrightarrow> later s t'"
  by (simp add: later_def)

lemma later_Variable: "later s t \<Longrightarrow> later s (fst (Variable t d l g o' ps))"
  by (simp add: Variable_def later_append)

lemma later_lift: "later s t \<Longrightarrow> later s (fst (lift fmt t other0))"
  by (cases other0) (simp_all add: lift_def later_Variable)

lemma later_add: "later s t \<Longrightarrow> later s (fst (add fmt t a other0))"
  using later_lift [of s t fmt other0]
  by (cases "lift fmt t other0") (simp add: add_def Variable_def set_backward_snoc later_append)

lemma later_sub: "later s t \<Longrightarrow> later s (fst (sub fmt t a other0))"
  using later_lift [of s t fmt other0]
  by (cases "lift fmt t other0") (simp add: sub_def Variable_def set_backward_snoc later_append)

lemma later_mul: "later s t \<Longrightarrow> later s (fst (mul fmt t a other0))"
  using later_lift [of s t fmt other0]
  by (cases "lift fmt t other0") (simp add: mul_def Variable_def set_backward_snoc later_append)

lemma later_pow: "later s t \<Longrightarrow> pow t a k = Inr (t', out) \<Longrightarrow> later s t'"
  by (auto simp: pow_def Variable_def set_backward_snoc later_append split: sum.splits)

lemma later_relu: "later s t \<Longrightarrow> later s (fst (relu t a))"
  by (simp add: relu_def Variable_def set_backward_snoc later_append)

lemma later_tanh_op: "later s t \<Longrightarrow> later s (fst (tanh_op t a))"
  by (simp add: tanh_op_def Variable_def later_append)

lemma later_backward: "later s t \<Longrightarrow> later s (store_after (backward t rt))"
  by (rule later_same_shape) (simp_all add: backward_shape)

lemma later_zero_grad: "later s t \<Longrightarrow> later s (zero_grad t v)"
  by (rule later_same_shape) (simp_all add: zero_grad_def)

subsection \<open>The operations and their closures\<close>

lemma two_leaves_eq:
  "two_leaves =
    [\<lparr>data = 3, label = ''a'', grad = 0, prev = [], op = [], backward_closure = NoOp\<rparr>,
     \<lparr>data = 4, label = ''b'', grad = 0, prev = [], op = [], backward_closure = NoOp\<rparr>]"
  by (simp add: two_leaves_def Variable_def)

text \<open>
  Claim C6. \<^verbatim>\<open>a * b\<close> on two objects of the store appends one object, with
  \<open>data = a.data * b.data\<close> and parents \<open>(a, b)\<close>. In every later store, calling the closure
  stored in it adds \<open>out.grad * b.data\<close> to \<open>a.grad\<close> and then \<open>out.grad * a.data\<close> to
  \<open>b.grad\<close>. For \<open>a.data = 3\<close>, \<open>b.data = 4\<close> and gradients \<open>0\<close>, after \<^verbatim>\<open>c = a * b\<close> and
  \<^verbatim>\<open>c.backward()\<close> the gradients of \<open>a\<close>, \<open>b\<close> and \<open>c\<close> are \<open>4\<close>, \<open>3\<close> and \<open>1\<close>.
\<close>

theorem mul_rule:
  "(a < length s \<and> b < length s \<longrightarrow>
      mul fmt s a (Var b) =
        (s @ [\<lparr>data = data (s ! a) * data (s ! b), label = label (s ! a), grad = 0,
                prev = [a, b], op = ''*'', backward_closure = MulBackward a b (length s)\<rparr>],
         length s) \<and>
      (\<forall>t. later (fst (mul fmt s a (Var b))) t \<longrightarrow>
         call_backward t (length s) =
           Inr (iadd_grad (iadd_grad t a (grad (t ! length s) * data (s ! b))) b
                  (grad (t ! length s) * data (s ! a))))) \<and>
   (let (s1, x) = Variable [] 3 la 0 [] [];
        (s2, y) = Variable s1 4 lb 0 [] [];
        (s3, z) = mul fmt s2 x (Var y);
        s4 = store_after (backward s3 z)
    in grad (s4 ! x) = 4 \<and> grad (s4 ! y) = 3 \<and> grad (s4 ! z) = 1)"
proof (intro conjI impI allI)
  let ?out = "length s"
  let ?s' = "s @ [\<lparr>data = data (s ! a) * data (s ! b), label = label (s ! a), grad = 0,
                    prev = [a, b], op = ''*'', backward_closure = MulBackward a b ?out\<rparr>]"
  show eq: "mul fmt s a (Var b) = (?s', ?out)"
    by (simp add: mul_def lift_def Variable_def set_backward_snoc)
  fix t
  assume ab: "a < length s \<and> b < length s" and "later (fst (mul fmt s a (Var b))) t"
  then have l: "later ?s' t" by (simp add: eq)
  have cl: "backward_closure (t ! ?out) = MulBackward a b ?out"
    using later_fields(5) [OF l, of ?out] by simp
  have da: "data (t ! a) = data (s ! a)" and db: "data (t ! b) = data (s ! b)"
    using later_fields(1) [OF later_snoc [OF l]] ab by simp_all
  from ab have ne: "?out \<noteq> a" by simp
  show "call_backward t ?out =
          Inr (iadd_grad (iadd_grad t a (grad (t ! ?out) * data (s ! b))) b
                 (grad (t ! ?out) * data (s ! a)))"
    by (simp add: call_backward_def cl nth_iadd_grad_neq [OF ne] data_iadd_grad da db)
next
  show "let (s1, x) = Variable [] 3 la 0 [] [];
        (s2, y) = Variable s1 4 lb 0 [] [];
        (s3, z) = mul fmt s2 x (Var y);
        s4 = store_after (backward s3 z)
    in grad (s4 ! x) = 4 \<and> grad (s4 ! y) = 3 \<and> grad (s4 ! z) = 1"
    by (simp add: mul_def store_ops backward_def build_topo.simps call_backward_def
        store_after_def)
qed

theorem mul_rule_witness:
  "0 < length two_leaves \<and> 1 < length two_leaves \<and>
   later (fst (mul plain_fmt two_leaves 0 (Var 1))) (set_grad (fst (mul plain_fmt two_leaves 0 (Var 1))) 2 5) \<and>
   map grad (projr (call_backward (set_grad (fst (mul plain_fmt two_leaves 0 (Var 1))) 2 5) 2))
     = [20, 15, 5]"
proof -
  let ?s' = "fst (mul plain_fmt two_leaves 0 (Var 1))"
  have l: "later ?s' (set_grad ?s' 2 5)"
    by (rule later_shape) simp
  have h: "0 < length two_leaves \<and> 1 < length two_leaves"
    by (simp add: two_leaves_eq)
  have len: "length two_leaves = 2" by (simp add: two_leaves_eq)
  note rule = mul_rule [of 0 two_leaves 1 plain_fmt, THEN conjunct1, rule_format, OF h]
  from rule [THEN conjunct2, rule_format, OF l]
  have "call_backward (set_grad ?s' 2 5) 2 =
      Inr (iadd_grad (iadd_grad (set_grad ?s' 2 5) 0 (grad (set_grad ?s' 2 5 ! 2) * data (two_leaves ! 1))) 1
                     (grad (set_grad ?s' 2 5 ! 2) * data (two_leaves ! 0)))"
    by (simp add: len)
  then show ?thesis
    using h l by (simp add: two_leaves_eq mul_def store_ops)
qed


text \<open>
  Claim C8. \<^verbatim>\<open>a.relu()\<close> appends one object, with \<open>data = max(0, a.data)\<close> and parent \<open>a\<close>.
  In every later store, calling the closure stored in it leaves the store as it is when
  \<open>a.data \<le> 0\<close> (also at \<open>0\<close>) and adds \<open>out.grad\<close> to \<open>a.grad\<close> otherwise. After
  \<^verbatim>\<open>y = x.relu(); y.backward()\<close> with \<open>x.grad = 0\<close> before, \<open>x.grad\<close> is \<open>0\<close> for
  \<open>x.data = -5\<close>, \<open>1\<close> for \<open>x.data = 5\<close>, and \<open>0\<close> for \<open>x.data = 0\<close>.
\<close>

theorem relu_rule:
  "(a < length s \<longrightarrow>
      relu s a =
        (s @ [\<lparr>data = max 0 (data (s ! a)), label = label (s ! a), grad = 0,
                prev = [a], op = ''relu'', backward_closure = ReluBackward a (length s)\<rparr>],
         length s) \<and>
      (\<forall>t. later (fst (relu s a)) t \<longrightarrow>
         call_backward t (length s) =
           Inr (if data (s ! a) \<le> 0 then t else iadd_grad t a (grad (t ! length s))))) \<and>
   (let (s1, x) = Variable [] (- 5) lx 0 [] [];
        (s2, y) = relu s1 x
    in grad (store_after (backward s2 y) ! x) = 0) \<and>
   (let (s1, x) = Variable [] 5 lx 0 [] [];
        (s2, y) = relu s1 x
    in grad (store_after (backward s2 y) ! x) = 1) \<and>
   (let (s1, x) = Variable [] 0 lx 0 [] [];
        (s2, y) = relu s1 x
    in grad (store_after (backward s2 y) ! x) = 0)"
proof (intro conjI impI allI)
  let ?out = "length s"
  let ?s' = "s @ [\<lparr>data = max 0 (data (s ! a)), label = label (s ! a), grad = 0,
                prev = [a], op = ''relu'', backward_closure = ReluBackward a ?out\<rparr>]"
  show eq: "relu s a = (?s', ?out)"
    by (simp add: relu_def Variable_def set_backward_snoc)
  fix t
  assume a: "a < length s" and "later (fst (relu s a)) t"
  then have l: "later ?s' t" by (simp add: eq)
  have cl: "backward_closure (t ! ?out) = ReluBackward a ?out"
    using later_fields(5) [OF l, of ?out] by simp
  have da: "data (t ! a) = data (s ! a)"
    using later_fields(1) [OF later_snoc [OF l]] a by simp
  show "call_backward t ?out =
          Inr (if data (s ! a) \<le> 0 then t else iadd_grad t a (grad (t ! ?out)))"
    by (simp add: call_backward_def cl da iadd_grad_zero)
qed (simp_all add: relu_def store_ops backward_def build_topo.simps call_backward_def
        store_after_def)

theorem relu_rule_witness:
  "0 < length two_leaves \<and>
   later (fst (relu two_leaves 0)) (set_grad (fst (relu two_leaves 0)) 2 5) \<and>
   map grad (projr (call_backward (set_grad (fst (relu two_leaves 0)) 2 5) 2)) = [5, 0, 5]"
proof -
  let ?s' = "fst (relu two_leaves 0)"
  have l: "later ?s' (set_grad ?s' 2 5)"
    by (rule later_shape) simp
  have h: "0 < length two_leaves" by (simp add: two_leaves_eq)
  have len: "length two_leaves = 2" by (simp add: two_leaves_eq)
  note rule = relu_rule [of 0 two_leaves, THEN conjunct1, rule_format, OF h]
  from rule [THEN conjunct2, rule_format, OF l]
  have "call_backward (set_grad ?s' 2 5) 2 =
      Inr (if data (two_leaves ! 0) \<le> 0 then set_grad ?s' 2 5
           else iadd_grad (set_grad ?s' 2 5) 0 (grad (set_grad ?s' 2 5 ! 2)))"
    by (simp add: len)
  then show ?thesis
    using h l by (simp add: two_leaves_eq relu_def store_ops)
qed








text \<open>
  Claim C5. Let \<open>a\<close> and \<open>b\<close> be two new leaves with gradient \<open>0\<close>, of any values, in any
  store. After \<^verbatim>\<open>c = a + b; d = c + a; d.backward()\<close> the gradients of \<open>a\<close>, \<open>b\<close>, \<open>c\<close> and
  \<open>d\<close> are \<open>2\<close>, \<open>1\<close>, \<open>1\<close> and \<open>1\<close>.
\<close>

theorem add_fan_out:
  "(let (s1, a) = Variable s0 x la 0 [] [];
        (s2, b) = Variable s1 y lb 0 [] [];
        (s3, c) = add fmt s2 a (Var b);
        (s4, d) = add fmt s3 c (Var a);
        s5 = store_after (backward s4 d)
    in grad (s5 ! a) = 2 \<and> grad (s5 ! b) = 1 \<and> grad (s5 ! c) = 1 \<and> grad (s5 ! d) = 1)"
  by (simp add: add_def store_ops backward_def build_topo.simps call_backward_def
        store_after_def nth_append)


lemma reach_tanh:
  assumes "reach s' rt v" and "rt = length s" and "prev_of s' (length s) = [a]"
    and "wf_store s'"
  shows "v = rt \<or> v \<le> a"
  using assms
proof (induction rule: reach.induct)
  case reach_root
  then show ?case by simp
next
  case (reach_prev v p)
  then have "v = rt \<or> v \<le> a" by simp
  then show ?case
  proof
    assume "v = rt"
    with reach_prev show ?thesis by simp
  next
    assume "v \<le> a"
    moreover have "p < v" using reach_prev.prems(3) reach_prev.hyps(2) by (rule prev_of_less)
    ultimately show ?thesis by simp
  qed
qed

text \<open>
  Claim C4. \<^verbatim>\<open>a.tanh()\<close> appends one object, with \<open>data = tanh(a.data)\<close> and parent \<open>a\<close>,
  whose closure is the \<^verbatim>\<open>lambda: None\<close> of the constructor. In every later store calling
  that closure changes nothing, so no pass adds anything to \<open>a.grad\<close> through this object.
  A pass started at the new object leaves \<open>a.grad\<close> as it was. After
  \<^verbatim>\<open>y = x.tanh(); z = y + x; z.backward()\<close> with \<open>x.grad = 0\<close> before, \<open>y.grad\<close> is \<open>1\<close> and
  \<open>x.grad\<close> is \<open>1\<close>: the contribution of the path through \<open>y\<close> is missing.
\<close>

theorem tanh_no_gradient:
  "(a < length s \<longrightarrow>
      tanh_op s a =
        (s @ [\<lparr>data = tanh (data (s ! a)), label = label (s ! a), grad = 0,
                prev = [a], op = ''tanh'', backward_closure = NoOp\<rparr>],
         length s) \<and>
      (\<forall>t. later (fst (tanh_op s a)) t \<longrightarrow> call_backward t (length s) = Inr t) \<and>
      (wf_store s \<longrightarrow>
         grad (store_after (backward (fst (tanh_op s a)) (length s)) ! a) = grad (s ! a))) \<and>
   (let (s1, x) = Variable [] v lx 0 [] [];
        (s2, y) = tanh_op s1 x;
        (s3, z) = add fmt s2 y (Var x);
        s4 = store_after (backward s3 z)
    in data (s4 ! y) = tanh v \<and> grad (s4 ! z) = 1 \<and> grad (s4 ! y) = 1 \<and> grad (s4 ! x) = 1)"
proof (intro conjI impI allI)
  let ?out = "length s"
  let ?s' = "s @ [\<lparr>data = tanh (data (s ! a)), label = label (s ! a), grad = 0,
                prev = [a], op = ''tanh'', backward_closure = NoOp\<rparr>]"
  show eq: "tanh_op s a = (?s', ?out)"
    by (simp add: tanh_op_def Variable_def)
  {
    fix t
    assume "later (fst (tanh_op s a)) t"
    then have l: "later ?s' t" by (simp add: eq)
    have cl: "backward_closure (t ! ?out) = NoOp"
      using later_fields(5) [OF l, of ?out] by simp
    show "call_backward t ?out = Inr t"
      by (simp add: call_backward_def cl)
  }
  assume a: "a < length s" and wf: "wf_store s"
  have wf': "wf_store ?s'"
    using wf_store_tanh_op [OF wf a] by (simp add: eq)
  have out: "?out < length ?s'" by simp
  let ?s1 = "set_grad ?s' ?out 1"
  have sh: "shape ?s' = shape ?s1" by simp
  have "\<forall>v\<in>set (rev (topo_order ?s' ?out)).
          v < length ?s1 \<and> a \<notin> targets (backward_closure (?s1 ! v))"
  proof
    fix v assume "v \<in> set (rev (topo_order ?s' ?out))"
    then have v: "reach ?s' ?out v" "v < length ?s'"
      using topo_order_inside [OF wf' out, of v] by simp_all
    have cl: "backward_closure (?s1 ! v) = backward_closure (?s' ! v)"
      using shape_fields(5) [OF sh v(2)] by simp
    have "a \<notin> targets (backward_closure (?s' ! v))"
    proof (cases "v = ?out")
      case True
      then show ?thesis by simp
    next
      case False
      have "prev_of ?s' ?out = [a]" by (simp add: prev_of_def)
      from reach_tanh [OF v(1) refl this wf'] False have le: "v \<le> a" by simp
      have sub: "targets (backward_closure (?s' ! v)) \<subseteq> set (prev_of ?s' v)"
        using wf' v(2) by (rule wf_targets)
      show ?thesis
      proof
        assume "a \<in> targets (backward_closure (?s' ! v))"
        with sub have "a \<in> set (prev_of ?s' v)" by blast
        with wf' have "a < v" by (rule prev_of_less)
        with le show False by simp
      qed
    qed
    with cl v(2) show "v < length ?s1 \<and> a \<notin> targets (backward_closure (?s1 ! v))"
      by simp
  qed
  then have "store_after (backward ?s' ?out) ! a = ?s1 ! a"
    unfolding backward_eq store_after_def by (rule backward_loop_frame)
  also have "\<dots> = s ! a"
    using a by (simp add: set_grad_def nth_append)
  finally show "grad (store_after (backward (fst (tanh_op s a)) (length s)) ! a) = grad (s ! a)"
    by (simp add: eq)
next
  show "let (s1, x) = Variable [] v lx 0 [] [];
        (s2, y) = tanh_op s1 x;
        (s3, z) = add fmt s2 y (Var x);
        s4 = store_after (backward s3 z)
    in data (s4 ! y) = tanh v \<and> grad (s4 ! z) = 1 \<and> grad (s4 ! y) = 1 \<and> grad (s4 ! x) = 1"
    by (simp add: tanh_op_def add_def store_ops backward_def build_topo.simps call_backward_def
        store_after_def)
qed

lemma two_leaves_wf: "wf_store two_leaves"
  by (simp add: two_leaves_eq wf_store_def wf_variable_def closure_ok_def)

theorem tanh_no_gradient_witness:
  "0 < length two_leaves \<and> wf_store two_leaves \<and>
   later (fst (tanh_op two_leaves 0)) (set_grad (fst (tanh_op two_leaves 0)) 2 5) \<and>
   call_backward (set_grad (fst (tanh_op two_leaves 0)) 2 5) (length two_leaves) =
     Inr (set_grad (fst (tanh_op two_leaves 0)) 2 5) \<and>
   grad (store_after (backward (fst (tanh_op two_leaves 0)) (length two_leaves)) ! 0) =
     grad (two_leaves ! 0)"
proof -
  let ?s' = "fst (tanh_op two_leaves 0)"
  have l: "later ?s' (set_grad ?s' 2 5)"
    by (rule later_shape) simp
  have h: "0 < length two_leaves" by (simp add: two_leaves_eq)
  note rule = tanh_no_gradient [of 0 two_leaves, THEN conjunct1, rule_format, OF h]
  from rule [THEN conjunct2, THEN conjunct1, rule_format, OF l]
    rule [THEN conjunct2, THEN conjunct2, rule_format, OF two_leaves_wf] h l two_leaves_wf
  show ?thesis by simp
qed


text \<open>
  Claim C10. The first line of \<^verbatim>\<open>__add__\<close>, \<^verbatim>\<open>__sub__\<close> and \<^verbatim>\<open>__mul__\<close> lifts the second
  operand: a number \<open>x\<close> becomes a new leaf with \<open>data = x\<close>, gradient \<open>0\<close>, no parents and
  the closure \<^verbatim>\<open>lambda: None\<close>, and an operand that is an object \<open>b\<close> is used as it is,
  with the store unchanged. After the lift the call constructs exactly one object, the
  result: the store it returns is the store after the lift with one object appended, whose
  parents are \<open>a\<close> and the lifted operand. The objects that the store held before the call
  are unchanged in every field.
\<close>

theorem binary_operand_lifted:
  "(a < length s \<longrightarrow>
     add fmt s a (Num x) =
       (s @ [\<lparr>data = x, label = fmt x, grad = 0, prev = [], op = [], backward_closure = NoOp\<rparr>,
             \<lparr>data = data (s ! a) + x, label = [], grad = 0, prev = [a, length s], op = ''+'',
               backward_closure = AddBackward a (length s) (Suc (length s))\<rparr>],
        Suc (length s)) \<and>
     sub fmt s a (Num x) =
       (s @ [\<lparr>data = x, label = fmt x, grad = 0, prev = [], op = [], backward_closure = NoOp\<rparr>,
             \<lparr>data = data (s ! a) - x, label = label (s ! a), grad = 0, prev = [a, length s],
               op = ''-'', backward_closure = SubBackward a (length s) (Suc (length s))\<rparr>],
        Suc (length s)) \<and>
     mul fmt s a (Num x) =
       (s @ [\<lparr>data = x, label = fmt x, grad = 0, prev = [], op = [], backward_closure = NoOp\<rparr>,
             \<lparr>data = data (s ! a) * x, label = label (s ! a), grad = 0, prev = [a, length s],
               op = ''*'', backward_closure = MulBackward a (length s) (Suc (length s))\<rparr>],
        Suc (length s)) \<and>
     (b < length s \<longrightarrow>
        add fmt s a (Var b) =
          (s @ [\<lparr>data = data (s ! a) + data (s ! b), label = [], grad = 0, prev = [a, b],
                  op = ''+'', backward_closure = AddBackward a b (length s)\<rparr>],
           length s) \<and>
        sub fmt s a (Var b) =
          (s @ [\<lparr>data = data (s ! a) - data (s ! b), label = label (s ! a), grad = 0,
                  prev = [a, b], op = ''-'', backward_closure = SubBackward a b (length s)\<rparr>],
           length s) \<and>
        mul fmt s a (Var b) =
          (s @ [\<lparr>data = data (s ! a) * data (s ! b), label = label (s ! a), grad = 0,
                  prev = [a, b], op = ''*'', backward_closure = MulBackward a b (length s)\<rparr>],
           length s))) \<and>
   lift fmt s (Var b) = (s, b) \<and>
   lift fmt s (Num x) =
     (s @ [\<lparr>data = x, label = fmt x, grad = 0, prev = [], op = [], backward_closure = NoOp\<rparr>],
      length s) \<and>
   butlast (fst (add fmt s a other0)) = fst (lift fmt s other0) \<and>
   butlast (fst (sub fmt s a other0)) = fst (lift fmt s other0) \<and>
   butlast (fst (mul fmt s a other0)) = fst (lift fmt s other0) \<and>
   length (fst (add fmt s a other0)) = Suc (length (fst (lift fmt s other0))) \<and>
   length (fst (sub fmt s a other0)) = Suc (length (fst (lift fmt s other0))) \<and>
   length (fst (mul fmt s a other0)) = Suc (length (fst (lift fmt s other0)))"
proof (intro conjI)
  show "a < length s \<longrightarrow>
     add fmt s a (Num x) =
       (s @ [\<lparr>data = x, label = fmt x, grad = 0, prev = [], op = [], backward_closure = NoOp\<rparr>,
             \<lparr>data = data (s ! a) + x, label = [], grad = 0, prev = [a, length s], op = ''+'',
               backward_closure = AddBackward a (length s) (Suc (length s))\<rparr>],
        Suc (length s)) \<and>
     sub fmt s a (Num x) =
       (s @ [\<lparr>data = x, label = fmt x, grad = 0, prev = [], op = [], backward_closure = NoOp\<rparr>,
             \<lparr>data = data (s ! a) - x, label = label (s ! a), grad = 0, prev = [a, length s],
               op = ''-'', backward_closure = SubBackward a (length s) (Suc (length s))\<rparr>],
        Suc (length s)) \<and>
     mul fmt s a (Num x) =
       (s @ [\<lparr>data = x, label = fmt x, grad = 0, prev = [], op = [], backward_closure = NoOp\<rparr>,
             \<lparr>data = data (s ! a) * x, label = label (s ! a), grad = 0, prev = [a, length s],
               op = ''*'', backward_closure = MulBackward a (length s) (Suc (length s))\<rparr>],
        Suc (length s)) \<and>
     (b < length s \<longrightarrow>
        add fmt s a (Var b) =
          (s @ [\<lparr>data = data (s ! a) + data (s ! b), label = [], grad = 0, prev = [a, b],
                  op = ''+'', backward_closure = AddBackward a b (length s)\<rparr>],
           length s) \<and>
        sub fmt s a (Var b) =
          (s @ [\<lparr>data = data (s ! a) - data (s ! b), label = label (s ! a), grad = 0,
                  prev = [a, b], op = ''-'', backward_closure = SubBackward a b (length s)\<rparr>],
           length s) \<and>
        mul fmt s a (Var b) =
          (s @ [\<lparr>data = data (s ! a) * data (s ! b), label = label (s ! a), grad = 0,
                  prev = [a, b], op = ''*'', backward_closure = MulBackward a b (length s)\<rparr>],
           length s))"
    by (simp add: add_def sub_def mul_def lift_def Variable_def set_backward_def nth_append)
  show "lift fmt s (Var b) = (s, b)"
    by (simp add: lift_def)
  show "lift fmt s (Num x) =
     (s @ [\<lparr>data = x, label = fmt x, grad = 0, prev = [], op = [], backward_closure = NoOp\<rparr>],
      length s)"
    by (simp add: lift_def Variable_def)
  obtain s1 other where l: "lift fmt s other0 = (s1, other)" by (cases "lift fmt s other0")
  show "butlast (fst (add fmt s a other0)) = fst (lift fmt s other0)"
    "butlast (fst (sub fmt s a other0)) = fst (lift fmt s other0)"
    "butlast (fst (mul fmt s a other0)) = fst (lift fmt s other0)"
    "length (fst (add fmt s a other0)) = Suc (length (fst (lift fmt s other0)))"
    "length (fst (sub fmt s a other0)) = Suc (length (fst (lift fmt s other0)))"
    "length (fst (mul fmt s a other0)) = Suc (length (fst (lift fmt s other0)))"
    by (simp_all add: add_def sub_def mul_def l Variable_def set_backward_snoc)
qed

theorem binary_operand_lifted_witness:
  "0 < length two_leaves \<and> 1 < length two_leaves \<and>
   length (fst (sub plain_fmt two_leaves 0 (Num 7))) = length two_leaves + 2 \<and>
   length (fst (sub plain_fmt two_leaves 0 (Var 1))) = length two_leaves + 1 \<and>
   take (length two_leaves) (fst (sub plain_fmt two_leaves 0 (Num 7))) = two_leaves"
proof -
  have h: "0 < length two_leaves" "1 < length two_leaves" by (simp_all add: two_leaves_eq)
  note rule = binary_operand_lifted [where a = 0 and s = two_leaves and fmt = plain_fmt
      and x = 7 and b = 1, THEN conjunct1, rule_format, OF h(1)]
  from rule [THEN conjunct2, THEN conjunct1]
    rule [THEN conjunct2, THEN conjunct2, THEN conjunct2, rule_format, OF h(2),
      THEN conjunct2, THEN conjunct1] h
  show ?thesis by simp
qed

subsection \<open>Two passes without a reset\<close>

lemma grad_iadd_grad_if:
  "grad (iadd_grad s i d ! j) = (if j = i \<and> i < length s then grad (s ! j) + d else grad (s ! j))"
  by (cases "i < length s") (simp_all add: iadd_grad_def nth_list_update list_update_beyond)

lemma grad_set_grad_neq: "j \<noteq> i \<Longrightarrow> grad (set_grad s i d ! j) = grad (s ! j)"
  by (simp add: nth_set_grad_neq)

lemma grad_set_grad_eq: "i < length s \<Longrightarrow> grad (set_grad s i d ! i) = d"
  by (simp add: set_grad_def)

lemma data_set_grad: "data (set_grad s i d ! j) = data (s ! j)"
  by (cases "i < length s"; cases "j = i") (simp_all add: set_grad_def list_update_beyond)

text \<open>What the first call of a pass adds to the gradient of an object other than the root
  depends on the fields of the store other than the gradients only.\<close>

lemma first_call_delta:
  assumes sh: "shape u = shape w" and wf: "wf_store u" and rt: "rt < length u" and p: "p \<noteq> rt"
  shows "grad (first_call u rt ! p) - grad (u ! p) = grad (first_call w rt ! p) - grad (w ! p)"
proof -
  have len: "length w = length u" using shape_length [OF sh] by simp
  have cw: "backward_closure (w ! rt) = backward_closure (u ! rt)"
    using shape_fields(5) [OF sh rt] by simp
  have cu': "backward_closure (set_grad u rt 1 ! rt) = backward_closure (u ! rt)"
    using shape_fields(5) [of "set_grad u rt 1" u rt] rt by simp
  have cw': "backward_closure (set_grad w rt 1 ! rt) = backward_closure (u ! rt)"
    using shape_fields(5) [of "set_grad w rt 1" w rt] rt len cw by simp
  have dat: "data (w ! i) = data (u ! i)" if "i < length u" for i
    using shape_fields(1) [OF sh that] by simp
  from wf rt have ok: "closure_ok rt (u ! rt)" and lt: "\<forall>q\<in>set (prev (u ! rt)). q < rt"
    by (simp_all add: wf_store_nth wf_variable_def list_all_iff)
  show ?thesis
  proof (cases "backward_closure (u ! rt)")
    case NoOp
    with p show ?thesis
      by (simp add: first_call_def call_backward_def cu' cw' grad_set_grad_neq)
  next
    case (AddBackward a b c)
    with ok lt have "c = rt" "a < rt" "b < rt" by (simp_all add: closure_ok_def)
    with AddBackward p rt len show ?thesis 
      by (simp add: first_call_def call_backward_def cu' cw' grad_iadd_grad_if
          grad_set_grad_neq grad_set_grad_eq)
  next
    case (SubBackward a b c)
    with ok lt have "c = rt" "a < rt" "b < rt" by (simp_all add: closure_ok_def)
    with SubBackward p rt len show ?thesis 
      by (simp add: first_call_def call_backward_def cu' cw' grad_iadd_grad_if
          grad_set_grad_neq grad_set_grad_eq)
  next
    case (MulBackward a b c)
    with ok lt have "c = rt" "a < rt" "b < rt" by (simp_all add: closure_ok_def)
    with MulBackward p rt len dat [of a] dat [of b] show ?thesis 
      by (simp add: first_call_def call_backward_def cu' cw' grad_iadd_grad_if
          grad_set_grad_neq grad_set_grad_eq data_set_grad data_iadd_grad)
  next
    case (PowBackward a c k)
    with ok lt have "c = rt" "a < rt" by (simp_all add: closure_ok_def)
    with PowBackward p rt len dat [of a] show ?thesis 
      by (simp add: first_call_def call_backward_def cu' cw' grad_iadd_grad_if
          grad_set_grad_neq grad_set_grad_eq data_set_grad split: sum.splits)
  next
    case (ReluBackward a c)
    with ok lt have "c = rt" "a < rt" by (simp_all add: closure_ok_def)
    with ReluBackward p rt len dat [of a] show ?thesis 
      by (simp add: first_call_def call_backward_def cu' cw' grad_iadd_grad_if
          grad_set_grad_neq grad_set_grad_eq data_set_grad)
  qed
qed


text \<open>An object other than the root whose only child in the pass is the root gets its
  gradient from the first call of the loop, whether or not a later call raises.\<close>

lemma backward_first_call:
  assumes wf: "wf_store u" and rt: "rt < length u" and p: "p \<noteq> rt"
    and only: "\<forall>v\<in>set (topo_order u rt). p \<in> set (prev_of u v) \<longrightarrow> v = rt"
  shows "store_after (backward u rt) ! p = first_call u rt ! p"
proof -
  let ?t = "topo_order u rt"
  let ?u1 = "set_grad u rt 1"
  note props = topo_order_props [OF wf, of rt]
  from props(4,5) have "?t = butlast ?t @ [rt]"
    by (metis append_butlast_last_id)
  then obtain ys where ys: "?t = ys @ [rt]" ..
  have rv: "rev ?t = rt # rev ys" by (simp add: ys)
  have notin: "rt \<notin> set ys" using props(1) by (simp add: ys)
  show ?thesis
  proof (cases "call_backward ?u1 rt")
    case (Inl e)
    then show ?thesis
      by (simp add: backward_eq rv store_after_def first_call_def)
  next
    case (Inr u')
    then have "shape u' = shape ?u1"
      by (simp add: call_backward_def run_closure_shape)
    then have sh: "shape u = shape u'" by simp
    have "\<forall>v\<in>set (rev ys).
            v < length u' \<and> p \<notin> targets (backward_closure (u' ! v))"
    proof
      fix v assume "v \<in> set (rev ys)"
      then have v: "v \<in> set ?t" "v \<noteq> rt"
        using notin by (auto simp: ys)
      then have lv: "v < length u"
        using topo_order_inside [OF wf rt, of v] by simp
      from v only have "p \<notin> set (prev_of u v)" by blast
      moreover have "targets (backward_closure (u ! v)) \<subseteq> set (prev_of u v)"
        using wf lv by (rule wf_targets)
      ultimately have "p \<notin> targets (backward_closure (u ! v))" by blast
      with shape_length [OF sh] shape_fields(5) [OF sh lv] lv
      show "v < length u' \<and> p \<notin> targets (backward_closure (u' ! v))" by simp
    qed
    then have "fst (backward_loop u' (rev ys)) ! p = u' ! p"
      by (rule backward_loop_frame)
    with Inr show ?thesis
      by (cases "backward_loop u' (rev ys)")
        (simp add: backward_eq rv store_after_def first_call_def)
  qed
qed

text \<open>
  Claim C3, as amended. Let \<open>rt\<close> be an object of a store built by the constructor and the
  operations. After one call of \<^verbatim>\<open>rt.backward()\<close>, and again after a second one with no
  \<^verbatim>\<open>zero_grad\<close> between them, \<open>rt.grad\<close> is \<open>1\<close>. An object \<open>p\<close> other than \<open>rt\<close> that is a
  parent of no reachable object but \<open>rt\<close>, and whose gradient was \<open>0\<close> before the first
  call, has after the second call exactly twice the gradient it had after the first.
\<close>

theorem backward_twice:
  assumes "wf_store s" and "rt < length s" and "p \<noteq> rt"
    and "\<forall>v. reach s rt v \<and> p \<in> set (prev_of s v) \<longrightarrow> v = rt"
    and "grad (s ! p) = 0"
  shows "grad (store_after (backward s rt) ! rt) = 1 \<and>
         grad (store_after (backward (store_after (backward s rt)) rt) ! rt) = 1 \<and>
         grad (store_after (backward (store_after (backward s rt)) rt) ! p) =
           2 * grad (store_after (backward s rt) ! p)"
proof -
  let ?s1 = "store_after (backward s rt)"
  let ?s2 = "store_after (backward ?s1 rt)"
  have sh: "shape s = shape ?s1" by (simp add: backward_shape)
  have wf1: "wf_store ?s1" using assms(1) by (rule wf_store_backward)
  have rt1: "rt < length ?s1" using shape_length [OF sh] assms(2) by simp
  have topo: "topo_order ?s1 rt = topo_order s rt"
    using topo_order_shape [OF sh, of rt] by simp
  have only: "\<forall>v\<in>set (topo_order s rt). p \<in> set (prev_of s v) \<longrightarrow> v = rt"
    using assms(4) topo_order_props(3) [OF assms(1), of rt] by simp
  then have only1: "\<forall>v\<in>set (topo_order ?s1 rt). p \<in> set (prev_of ?s1 v) \<longrightarrow> v = rt"
    using shape_prev_of [OF sh] by (simp add: topo)
  have root1: "grad (?s1 ! rt) = 1"
    using backward_untouched [OF assms(1,2), of rt] assms(2) by (simp add: grad_set_grad_eq)
  have root2: "grad (?s2 ! rt) = 1"
    using backward_untouched [OF wf1 rt1, of rt] rt1 by (simp add: grad_set_grad_eq)
  have one: "grad (?s1 ! p) = grad (first_call s rt ! p)"
    using backward_first_call [OF assms(1,2,3) only] by simp
  have two: "grad (?s2 ! p) = grad (first_call ?s1 rt ! p)"
    using backward_first_call [OF wf1 rt1 assms(3) only1] by simp
  from first_call_delta [OF sh assms(1,2,3)] one two assms(5)
  have "grad (?s2 ! p) = 2 * grad (?s1 ! p)" by simp
  with root1 root2 show ?thesis by simp
qed

lemma product_graph_eq:
  "product_graph =
    [\<lparr>data = 3, label = ''a'', grad = 0, prev = [], op = [], backward_closure = NoOp\<rparr>,
     \<lparr>data = 4, label = ''b'', grad = 0, prev = [], op = [], backward_closure = NoOp\<rparr>,
     \<lparr>data = 12, label = ''a'', grad = 0, prev = [0, 1], op = ''*'',
       backward_closure = MulBackward 0 1 2\<rparr>]"
  by (simp add: product_graph_def two_leaves_eq mul_def store_ops)

theorem backward_twice_witness:
  "wf_store product_graph \<and> 2 < length product_graph \<and> grad (product_graph ! 0) = 0 \<and>
   grad (store_after (backward product_graph 2) ! 2) = 1 \<and>
   grad (store_after (backward product_graph 2) ! 0) = 4 \<and>
   grad (store_after (backward (store_after (backward product_graph 2)) 2) ! 0) = 8"
proof -
  have wf: "wf_store product_graph"
    by (simp add: product_graph_eq wf_store_def wf_variable_def closure_ok_def)
  have len: "2 < length product_graph" by (simp add: product_graph_eq)
  have only: "\<forall>v. reach product_graph 2 v \<and> 0 \<in> set (prev_of product_graph v) \<longrightarrow> v = 2"
  proof (intro allI impI)
    fix v assume v: "reach product_graph 2 v \<and> 0 \<in> set (prev_of product_graph v)"
    then have "v \<le> 2" using reach_le [of product_graph 2 v] wf by simp
    then consider "v = 0" | "v = 1" | "v = 2" by linarith
    then show "v = 2"
      using v by cases (simp_all add: product_graph_eq prev_of_def)
  qed
  have zero: "grad (product_graph ! 0) = 0" by (simp add: product_graph_eq)
  have first: "grad (store_after (backward product_graph 2) ! 0) = 4"
    by (simp add: product_graph_eq backward_def build_topo.simps prev_of_def set_grad_def
        iadd_grad_def call_backward_def store_after_def)
  from backward_twice [OF wf len _ only zero] first wf len zero
  show ?thesis by simp
qed

lemma relu_chain_eq:
  "relu_chain =
    [\<lparr>data = 5, label = ''x'', grad = 0, prev = [], op = [], backward_closure = NoOp\<rparr>,
     \<lparr>data = 5, label = ''x'', grad = 0, prev = [0], op = ''relu'',
       backward_closure = ReluBackward 0 1\<rparr>,
     \<lparr>data = 5, label = ''x'', grad = 0, prev = [1], op = ''relu'',
       backward_closure = ReluBackward 1 2\<rparr>]"
  by (simp add: relu_chain_def relu_def store_ops)

text \<open>
  Claim C3 as stated fails. In the chain \<^verbatim>\<open>y = x.relu(); z = y.relu()\<close> with \<open>x.data = 5\<close>
  one pass from \<open>z\<close> gives the gradients \<open>1, 1, 1\<close> to \<open>x, y, z\<close>. A second pass sets
  \<open>z.grad\<close> to \<open>1\<close> again, adds it to \<open>y.grad\<close>, which becomes \<open>2\<close>, and adds that to
  \<open>x.grad\<close>, which becomes \<open>3\<close>: the root keeps its gradient and \<open>x\<close> triples it.
\<close>

theorem backward_twice_counterexample:
  "map grad relu_chain = [0, 0, 0] \<and>
   map grad (store_after (backward relu_chain 2)) = [1, 1, 1] \<and>
   map grad (store_after (backward (store_after (backward relu_chain 2)) 2)) = [3, 2, 1]"
  by (simp add: relu_chain_eq backward_def build_topo.simps prev_of_def set_grad_def
      iadd_grad_def call_backward_def store_after_def)

end
